theory Spec2Isabelle
  imports Main "HOL-Library.Word" "HOL-Library.Multiset"
begin

unbundle bit_operations_syntax

section \<open>Basic types\<close>

text \<open>
  The engine's fixed-width integers are words. Addresses and \<open>PtrSize\<close> values are natural
  numbers; where the source computes in 64-bit \<open>PtrSize\<close> arithmetic that can wrap, the
  \<open>mod 2 ^ 64\<close> is written out. The null pointer is address 0.
\<close>

type_synonym U8 = "8 word"
type_synonym U32 = "32 word"

definition nullptr :: nat where
  "nullptr = 0"

definition MAX_U32 :: nat where
  "MAX_U32 = 2 ^ 32 - 1"

text \<open>
  The model is the build with \<open>ANKI_DEBUG\<close> set: \<open>ANKI_ASSERT\<close> is checked and a failed
  assertion ends the program (\<open>AssertionFailed\<close>), and the pools invalidate memory with
  \<open>memset(..., 0xCC, ...)\<close>. An exception thrown by the allocator is \<open>Exception\<close>; pointer
  arithmetic that leaves the address space is \<open>UndefinedBehaviour\<close>.
\<close>

datatype error = AssertionFailed | Exception string | UndefinedBehaviour

text \<open>
  Four declarations that the model needs are not part of the sources, and are parameters,
  collected in one record: \<open>getAlignedRoundUp\<close> and \<open>isAligned\<close> of
  \<open>anki/util/Functions.h\<close>; the alignment that \<open>anki/util/Memory.h\<close> gives to
  \<open>StackMemoryPool::allocate\<close> when it is called with the size alone, as
  \<open>StackAllocator::allocate\<close> does; and the size of the scheduler's copy of a task
  (\<open>ThreadHive::Task\<close> of \<open>ThreadHive.cpp\<close>).
\<close>

record Env =
  getAlignedRoundUp :: "nat \<Rightarrow> nat \<Rightarrow> nat"
  isAligned :: "nat \<Rightarrow> nat \<Rightarrow> bool"
  defaultAlignment :: nat
  sizeof_Task :: nat

section \<open>Raw memory\<close>

text \<open>\<open>memset(p, v, n)\<close> on a byte-addressed memory.\<close>

definition memset :: "(nat \<Rightarrow> U8) \<Rightarrow> nat \<Rightarrow> U8 \<Rightarrow> nat \<Rightarrow> (nat \<Rightarrow> U8)" where
  "memset mem p v n = (\<lambda>a. if p \<le> a \<and> a < p + n then v else mem a)"

text \<open>
  \<open>memcpy\<close> of a \<open>U32\<close> to and from four bytes (\<open>MemoryBlockHeader::m_size\<close> is a
  \<open>U8[sizeof(U32)]\<close>), least significant byte first.
\<close>

definition store_U32 :: "(nat \<Rightarrow> U8) \<Rightarrow> nat \<Rightarrow> U32 \<Rightarrow> (nat \<Rightarrow> U8)" where
  "store_U32 mem p w = mem(p := ucast w, p + 1 := ucast (drop_bit 8 w),
     p + 2 := ucast (drop_bit 16 w), p + 3 := ucast (drop_bit 24 w))"

definition load_U32 :: "(nat \<Rightarrow> U8) \<Rightarrow> nat \<Rightarrow> U32" where
  "load_U32 mem p = ucast (mem p) OR push_bit 8 (ucast (mem (p + 1)))
     OR push_bit 16 (ucast (mem (p + 2))) OR push_bit 24 (ucast (mem (p + 3)))"

section \<open>StackMemoryPool (src/util/Memory.cpp)\<close>

text \<open>
  \<open>StackMemoryPool::Implementation\<close>. The allocation callback and its user data are used
  by \<open>create\<close> and the destructor only and are left out. \<open>bytes\<close> is the content of the
  memory the pool's pointers point into.
\<close>

record Implementation =
  m_refcount :: U32
  m_alignmentBytes :: nat
  m_headerSize :: nat
  m_memory :: nat
  m_memsize :: nat
  m_top :: nat
  m_allocationsCount :: U32
  bytes :: "nat \<Rightarrow> U8"

text \<open>
  \<open>Implementation::allocate\<close> (the source's \<open>size\<close> is \<open>sz\<close>, and \<open>sz'\<close> after the
  rounding). \<open>m_top.fetch_add(size)\<close> advances the top before the
  bounds test, so the top stays advanced when the request does not fit and the null
  pointer is returned.
\<close>

definition Implementation_allocate ::
  "Env \<Rightarrow> Implementation \<Rightarrow> nat \<Rightarrow> nat \<Rightarrow> (error + nat) \<times> Implementation" where
  "Implementation_allocate F s sz alignment =
    (if m_memory s = nullptr then (Inl AssertionFailed, s)
     else if \<not> alignment \<le> m_alignmentBytes s then (Inl AssertionFailed, s)
     else
       let sz' = getAlignedRoundUp F (m_alignmentBytes s) ((sz + m_headerSize s) mod 2 ^ 64) in
       if \<not> sz' < MAX_U32 then (Inl AssertionFailed, s)
       else
         let out = m_top s;
             s1 = s\<lparr>m_top := m_top s + sz'\<rparr> in
         if out + sz' \<le> m_memory s + m_memsize s then
           let s2 = s1\<lparr>bytes := store_U32 (memset (bytes s1) out 0xCC sz') out (of_nat sz')\<rparr>;
               out' = out + m_headerSize s in
           if \<not> isAligned F (m_alignmentBytes s) out' then (Inl AssertionFailed, s2)
           else (Inr out', s2\<lparr>m_allocationsCount := m_allocationsCount s2 + 1\<rparr>)
         else (Inr nullptr, s1))"

text \<open>
  \<open>Implementation::free\<close>. The compare-exchange on \<open>m_top\<close> succeeds when the top equals
  the end of the block, as computed from the size in the block's header.
\<close>

definition Implementation_free ::
  "Env \<Rightarrow> Implementation \<Rightarrow> nat \<Rightarrow> (error + bool) \<times> Implementation" where
  "Implementation_free F s ptr =
    (if \<not> (ptr \<noteq> nullptr \<and> isAligned F (m_alignmentBytes s) ptr) then (Inl AssertionFailed, s)
     else if m_memory s = nullptr then (Inl AssertionFailed, s)
     else if ptr < m_headerSize s then (Inl UndefinedBehaviour, s)
     else
       let realptr = ptr - m_headerSize s in
       if \<not> realptr \<ge> m_memory s then (Inl AssertionFailed, s)
       else
         let sz = unat (load_U32 (bytes s) realptr) in
         if \<not> realptr + sz \<le> m_memory s + m_memsize s then (Inl AssertionFailed, s)
         else
           let expected = realptr + sz;
               desired = realptr;
               exchange = (m_top s = expected);
               s1 = (if exchange then s\<lparr>m_top := desired\<rparr> else s) in
           (Inr exchange, s1\<lparr>m_allocationsCount := m_allocationsCount s1 - 1\<rparr>))"

text \<open>\<open>Implementation::reset\<close>: the allocation count is not touched.\<close>

definition Implementation_reset :: "Implementation \<Rightarrow> error + Implementation" where
  "Implementation_reset s =
    (if m_memory s = nullptr then Inl AssertionFailed
     else Inr (s\<lparr>bytes := memset (bytes s) (m_memory s) 0xCC (m_memsize s), m_top := m_memory s\<rparr>))"

text \<open>
  \<open>StackMemoryPool\<close> holds a pointer \<open>m_impl\<close> to the implementation; \<open>None\<close> is the null
  \<open>m_impl\<close>. Its \<open>allocate\<close> only logs when the implementation returns null.
\<close>

type_synonym StackMemoryPool = "Implementation option"

definition StackMemoryPool_allocate ::
  "Env \<Rightarrow> StackMemoryPool \<Rightarrow> nat \<Rightarrow> nat \<Rightarrow> (error + nat) \<times> StackMemoryPool" where
  "StackMemoryPool_allocate F pool sz alignment =
    (case pool of
       None \<Rightarrow> (Inl AssertionFailed, pool)
     | Some impl \<Rightarrow>
         (case Implementation_allocate F impl sz alignment of (mem, impl') \<Rightarrow> (mem, Some impl')))"

definition StackMemoryPool_free ::
  "Env \<Rightarrow> StackMemoryPool \<Rightarrow> nat \<Rightarrow> (error + bool) \<times> StackMemoryPool" where
  "StackMemoryPool_free F pool ptr =
    (case pool of
       None \<Rightarrow> (Inl AssertionFailed, pool)
     | Some impl \<Rightarrow>
         (case Implementation_free F impl ptr of (ok, impl') \<Rightarrow> (ok, Some impl')))"

text \<open>
  The size of the block that \<open>Implementation::allocate\<close> takes for a request of \<open>n\<close>
  bytes: the request and the header, rounded up to the alignment.
\<close>

definition block_size :: "Env \<Rightarrow> Implementation \<Rightarrow> nat \<Rightarrow> nat" where
  "block_size E impl n =
     getAlignedRoundUp E (m_alignmentBytes impl) ((n + m_headerSize impl) mod 2 ^ 64)"

definition StackMemoryPool_reset :: "StackMemoryPool \<Rightarrow> error + StackMemoryPool" where
  "StackMemoryPool_reset pool =
    (case pool of
       None \<Rightarrow> Inl AssertionFailed
     | Some impl \<Rightarrow> (case Implementation_reset impl of Inl e \<Rightarrow> Inl e | Inr impl' \<Rightarrow> Inr (Some impl')))"

section \<open>StackAllocator (include/anki/util/Allocator.h)\<close>

text \<open>
  \<open>StackAllocator<T, deallocationFlag, alignmentBytes>\<close> holds \<open>mpool\<close>, a shared pointer
  to a \<open>StackMemoryPool\<close>; \<open>None\<close> is the null \<open>mpool\<close>. \<open>allocate(n, hint)\<close> ignores the
  hint and throws when the pool returns the null pointer. \<open>sizeof_value_type\<close> is
  \<open>sizeof(T)\<close>.
\<close>

type_synonym StackAllocator = "StackMemoryPool option"

definition out_of_room :: error where
  "out_of_room = Exception ''Allocation failed. There is not enough room''"

definition StackAllocator_allocate ::
  "Env \<Rightarrow> nat \<Rightarrow> StackAllocator \<Rightarrow> nat \<Rightarrow> (error + nat) \<times> StackAllocator" where
  "StackAllocator_allocate E sizeof_value_type alloc n =
    (case alloc of
       None \<Rightarrow> (Inl AssertionFailed, alloc)
     | Some mpool \<Rightarrow>
         let sz = (n * sizeof_value_type) mod 2 ^ 64 in
         (case StackMemoryPool_allocate E mpool sz (defaultAlignment E) of
            (Inl e, mpool') \<Rightarrow> (Inl e, Some mpool')
          | (Inr out, mpool') \<Rightarrow>
              if out \<noteq> nullptr then (Inr out, Some mpool')
              else (Inl out_of_room, Some mpool')))"

section \<open>ThreadHive (src/anki/util/ThreadHive.h)\<close>

text \<open>\<open>ThreadHiveSemaphore\<close>: one atomic 32-bit unsigned counter.\<close>

record ThreadHiveSemaphore =
  m_atomic :: U32

text \<open>\<open>increaseSemaphore\<close> is \<open>m_atomic.fetchAdd(1)\<close>, on 32 bits.\<close>

definition increaseSemaphore :: "ThreadHiveSemaphore \<Rightarrow> ThreadHiveSemaphore" where
  "increaseSemaphore sem = sem\<lparr>m_atomic := m_atomic sem + 1\<rparr>"

text \<open>
  \<open>ThreadHiveTask\<close>. The callback is a function pointer and the argument and the two
  semaphores are pointers: addresses, with \<open>nullptr\<close> for none. A default-constructed task
  has null semaphores; \<open>ANKI_DBG_NULLIFY\<close> nullifies the other two members.
\<close>

record ThreadHiveTask =
  m_callback :: nat
  m_argument :: nat
  m_waitSemaphore :: nat
  m_signalSemaphore :: nat

definition ThreadHiveTask_default :: ThreadHiveTask where
  "ThreadHiveTask_default =
     \<lparr>m_callback = nullptr, m_argument = nullptr, m_waitSemaphore = nullptr, m_signalSemaphore = nullptr\<rparr>"

text \<open>
  Modelled from the spec: the scheduler's own copy of a submitted task (\<open>ThreadHive::Task\<close>,
  declared in the header and defined in \<open>ThreadHive.cpp\<close>, which is not part of the
  sources; section 3: "logically copied into scheduler-owned storage"): the descriptor
  and a serial number that stands for the identity of the copy.
\<close>

record Task =
  serial :: nat
  desc :: ThreadHiveTask

text \<open>
  \<open>ThreadHive\<close>. From the header: \<open>m_alloc\<close>, \<open>m_threadCount\<close>, the task list from \<open>m_head\<close>
  to \<open>m_tail\<close> (\<open>m_queue\<close>), \<open>m_quit\<close> and \<open>m_pendingTasks\<close>; the threads, the mutex and the
  condition variable are left out. \<open>sems\<close> is the store of the semaphore objects, by
  address. The other fields belong to the scheduler as the specification describes it:
  \<open>blocked\<close> holds the tasks registered against a wait-gate, \<open>running\<close> the task each busy
  worker executes, \<open>next_serial\<close> numbers the copies, and \<open>submitted\<close>, \<open>started\<close>,
  \<open>woken\<close> and \<open>completed\<close> are history: the tasks in the order of their submission,
  of the start of their callback, of their wake and of their completion.
\<close>

record ThreadHive =
  m_alloc :: StackAllocator
  m_threadCount :: U32
  m_queue :: "Task list"
  m_quit :: bool
  m_pendingTasks :: U32
  sems :: "nat \<rightharpoonup> ThreadHiveSemaphore"
  blocked :: "Task list"
  running :: "(nat \<times> Task) list"
  next_serial :: nat
  submitted :: "Task list"
  started :: "Task list"
  woken :: "Task list"
  completed :: "Task list"

text \<open>
  The call \<open>sem->increaseSemaphore()\<close> on the semaphore at the address \<open>g\<close>; with no
  semaphore there the call is undefined.
\<close>

definition increaseSemaphore_at :: "nat \<Rightarrow> ThreadHive \<Rightarrow> ThreadHive option" where
  "increaseSemaphore_at g h =
    (case sems h g of
       None \<Rightarrow> None
     | Some sem \<Rightarrow> Some (h\<lparr>sems := (sems h)(g \<mapsto> increaseSemaphore sem)\<rparr>))"

text \<open>
  \<open>ThreadHive::newSemaphore\<close>. \<open>m_alloc\<close> is a \<open>StackAllocator<U8>\<close>, so the size of its
  value type is 1; \<open>sizeof(ThreadHiveSemaphore)\<close> is 4.
\<close>

definition newSemaphore :: "Env \<Rightarrow> ThreadHive \<Rightarrow> U32 \<Rightarrow> (error + nat) \<times> ThreadHive" where
  "newSemaphore E h initialValue =
    (if \<not> initialValue > 0 then (Inl AssertionFailed, h)
     else
       (case StackAllocator_allocate E 1 (m_alloc h) 4 of
          (Inl e, a) \<Rightarrow> (Inl e, h\<lparr>m_alloc := a\<rparr>)
        | (Inr sem, a) \<Rightarrow>
            (Inr sem, h\<lparr>m_alloc := a, sems := (sems h)(sem \<mapsto> \<lparr>m_atomic = initialValue\<rparr>)\<rparr>)))"

text \<open>
  \<open>ThreadHive::submitTask\<close>. \<open>submitTasks\<close> is defined in \<open>ThreadHive.cpp\<close>; the function
  is written over any \<open>submitTasks\<close>.
\<close>

definition submitTask ::
  "(ThreadHiveTask list \<Rightarrow> nat \<Rightarrow> 'h \<Rightarrow> 'r) \<Rightarrow> nat \<Rightarrow> nat \<Rightarrow> 'h \<Rightarrow> 'r" where
  "submitTask submitTasks' callback arg h =
    (let task = ThreadHiveTask_default;
         task = task\<lparr>m_callback := callback\<rparr>;
         task = task\<lparr>m_argument := arg\<rparr>
     in submitTasks' [task] 1 h)"

section \<open>The scheduler of the specification\<close>

text \<open>
  Modelled from the spec: \<open>ThreadHive.cpp\<close> (the constructor, \<open>submitTasks\<close>,
  \<open>waitAllTasks\<close>, \<open>threadRun\<close>, \<open>waitForWork\<close>, \<open>getNewTask\<close>, \<open>completeTask\<close>) is not part
  of the sources. The definitions of this section follow sections 3, 4 and 5 of the
  specification. Every operation is one atomic step, as the queue lock and the atomic
  counters make it; concurrency is the interleaving of steps.
\<close>

text \<open>
  Modelled from the spec: the constructor. No task, no semaphore, \<open>threadCount\<close> idle
  workers.
\<close>

definition ThreadHive_init :: "nat \<Rightarrow> StackAllocator \<Rightarrow> ThreadHive" where
  "ThreadHive_init threadCount alloc =
     \<lparr>m_alloc = alloc, m_threadCount = of_nat threadCount, m_queue = [], m_quit = False,
      m_pendingTasks = 0, sems = Map.empty, blocked = [], running = [], next_serial = 0,
      submitted = [], started = [], woken = [], completed = []\<rparr>"

text \<open>
  Modelled from the spec: the test of section 4.2, "it has no wait-gate, or its
  wait-gate's current counter is already 0".
\<close>

definition gate_open :: "ThreadHive \<Rightarrow> ThreadHiveTask \<Rightarrow> bool" where
  "gate_open h t =
     (m_waitSemaphore t = nullptr \<or>
      (case sems h (m_waitSemaphore t) of None \<Rightarrow> False | Some sem \<Rightarrow> m_atomic sem = 0))"

text \<open>
  Modelled from the spec: a semaphore pointer of a task is null ("optional reference") or
  points to a semaphore of the store.
\<close>

definition valid_gate :: "ThreadHive \<Rightarrow> nat \<Rightarrow> bool" where
  "valid_gate h g = (g = nullptr \<or> sems h g \<noteq> None)"

text \<open>Modelled from the spec: both gates of a task descriptor are such references.\<close>

definition valid_task :: "ThreadHive \<Rightarrow> ThreadHiveTask \<Rightarrow> bool" where
  "valid_task h t = (valid_gate h (m_waitSemaphore t) \<and> valid_gate h (m_signalSemaphore t))"

text \<open>
  Modelled from the spec: the body of the loop of \<open>submitTasks\<close> (section 4.2), for one
  task: the task is copied, counted as pending, and placed at the tail of the ready queue
  or registered against its wait-gate.
\<close>

definition submitOne :: "ThreadHive \<Rightarrow> ThreadHiveTask \<Rightarrow> ThreadHive" where
  "submitOne h t =
    (let self = \<lparr>serial = next_serial h, desc = t\<rparr>;
         h1 = h\<lparr>next_serial := next_serial h + 1, submitted := submitted h @ [self],
                m_pendingTasks := m_pendingTasks h + 1\<rparr>
     in if gate_open h t then h1\<lparr>m_queue := m_queue h1 @ [self]\<rparr>
        else h1\<lparr>blocked := blocked h1 @ [self]\<rparr>)"

text \<open>
  Modelled from the spec: \<open>submitTasks(tasks, taskCount)\<close>. The array is a list and the
  first \<open>taskCount\<close> elements are read; a count beyond the array and a semaphore pointer
  that points to no semaphore are undefined behaviour, a null callback is an assertion
  failure (section 4.3, failure semantics). The storage of the copies comes from the
  arena (sections 3 and 5), and a failure of the allocator reaches the caller (section 7).
\<close>

definition submitTasks ::
  "Env \<Rightarrow> ThreadHiveTask list \<Rightarrow> nat \<Rightarrow> ThreadHive \<Rightarrow> (error + unit) \<times> ThreadHive" where
  "submitTasks E tasks taskCount h =
    (if taskCount > length tasks then (Inl UndefinedBehaviour, h)
     else if list_ex (\<lambda>t. m_callback t = nullptr) (take taskCount tasks) then (Inl AssertionFailed, h)
     else if list_ex (\<lambda>t. \<not> valid_task h t) (take taskCount tasks) then (Inl UndefinedBehaviour, h)
     else
       (case StackAllocator_allocate E (sizeof_Task E) (m_alloc h) taskCount of
          (Inl e, a) \<Rightarrow> (Inl e, h\<lparr>m_alloc := a\<rparr>)
        | (Inr htasks, a) \<Rightarrow> (Inr (), foldl submitOne (h\<lparr>m_alloc := a\<rparr>) (take taskCount tasks))))"

text \<open>Modelled from the spec: "a task whose wait-gate is this semaphore".\<close>

definition waits_on :: "nat \<Rightarrow> Task \<Rightarrow> bool" where
  "waits_on g t = (m_waitSemaphore (desc t) = g)"

text \<open>
  Modelled from the spec: the wake of section 4.1, "move every task whose wait-gate is
  this semaphore from blocked to ready", at the tail of the queue (section 5).
\<close>

definition wake :: "nat \<Rightarrow> ThreadHive \<Rightarrow> ThreadHive" where
  "wake g h =
     h\<lparr>m_queue := m_queue h @ filter (waits_on g) (blocked h),
       blocked := filter (\<lambda>t. \<not> waits_on g t) (blocked h),
       woken := woken h @ filter (waits_on g) (blocked h)\<rparr>"

text \<open>
  Modelled from the spec: the automatic decrement of a signal-gate, with the wake when the
  value after the decrement is 0. The counter is unsigned: a decrement at 0 wraps.
\<close>

definition decreaseSemaphore :: "nat \<Rightarrow> ThreadHive \<Rightarrow> ThreadHive option" where
  "decreaseSemaphore g h =
    (case sems h g of
       None \<Rightarrow> None
     | Some sem \<Rightarrow>
         let sem' = sem\<lparr>m_atomic := m_atomic sem - 1\<rparr>;
             h1 = h\<lparr>sems := (sems h)(g \<mapsto> sem')\<rparr>
         in if m_atomic sem' = 0 then Some (wake g h1) else Some h1)"

text \<open>
  Modelled from the spec: the first half of the worker loop of section 4.3. An idle
  worker pops the task at the head of the queue and starts its callback; with an empty
  queue the worker sleeps and there is no step.
\<close>

definition worker_pop :: "nat \<Rightarrow> ThreadHive \<Rightarrow> ThreadHive option" where
  "worker_pop w h =
    (if \<not> w < unat (m_threadCount h) then None
     else if map_of (running h) w \<noteq> None then None
     else (case m_queue h of
             [] \<Rightarrow> None
           | t # q \<Rightarrow> Some (h\<lparr>m_queue := q, running := running h @ [(w, t)],
                               started := started h @ [t]\<rparr>)))"

text \<open>
  Modelled from the spec: the state after a successful \<open>worker_pop\<close>, as a function of
  the state before.
\<close>

definition start :: "nat \<Rightarrow> ThreadHive \<Rightarrow> ThreadHive" where
  "start w h = h\<lparr>m_queue := tl (m_queue h), running := running h @ [(w, hd (m_queue h))],
       started := started h @ [hd (m_queue h)]\<rparr>"

text \<open>
  Modelled from the spec: the end of the bookkeeping of a completed task: the pending
  counter is decremented and the worker is idle again.
\<close>

definition finish :: "nat \<Rightarrow> Task \<Rightarrow> ThreadHive \<Rightarrow> ThreadHive" where
  "finish w t h =
     h\<lparr>m_pendingTasks := m_pendingTasks h - 1,
       running := filter (\<lambda>r. fst r \<noteq> w) (running h),
       completed := completed h @ [t]\<rparr>"

text \<open>
  Modelled from the spec: the second half of the worker loop of section 4.3. The callback
  of the worker's task has returned; the worker decrements the signal-gate, if any, with
  the wake that goes with it, and then the pending counter.
\<close>

definition worker_complete :: "nat \<Rightarrow> ThreadHive \<Rightarrow> ThreadHive option" where
  "worker_complete w h =
    (case map_of (running h) w of
       None \<Rightarrow> None
     | Some t \<Rightarrow>
         if m_signalSemaphore (desc t) = nullptr then Some (finish w t h)
         else (case decreaseSemaphore (m_signalSemaphore (desc t)) h of
                 None \<Rightarrow> None
               | Some h1 \<Rightarrow> Some (finish w t h1)))"

text \<open>
  Modelled from the spec: \<open>waitAllTasks\<close> returns when the pending counter is 0; \<open>None\<close>
  is the driver still blocked.
\<close>

definition waitAllTasks :: "ThreadHive \<Rightarrow> ThreadHive option" where
  "waitAllTasks h = (if m_pendingTasks h = 0 then Some h else None)"

text \<open>
  Modelled from the spec: the operations that the driver, the callbacks and the workers
  apply to a hive (section 6 and the worker loop). A step of the system is one of them;
  \<open>None\<close> means that the operation cannot take place in the state, or ends the program
  (a failed assertion, undefined behaviour). After an exception of the allocator the
  program goes on, in the state the allocator has left. \<open>submitTask\<close> is \<open>submitTasks\<close>
  on one task and needs no action of its own.
\<close>

definition outcome :: "(error + 'a) \<times> ThreadHive \<Rightarrow> ThreadHive option" where
  "outcome r =
    (case r of
       (Inl (Exception msg), h') \<Rightarrow> Some h'
     | (Inl AssertionFailed, h') \<Rightarrow> None
     | (Inl UndefinedBehaviour, h') \<Rightarrow> None
     | (Inr x, h') \<Rightarrow> Some h')"

text \<open>Modelled from the spec: the operations, as data.\<close>

datatype action =
    NewSemaphore U32
  | IncreaseSemaphore nat
  | SubmitTasks "ThreadHiveTask list" nat
  | Pop nat
  | Complete nat

text \<open>Modelled from the spec: one step, and a sequence of steps.\<close>

definition step :: "Env \<Rightarrow> action \<Rightarrow> ThreadHive \<Rightarrow> ThreadHive option" where
  "step E a h =
    (case a of
       NewSemaphore v \<Rightarrow> outcome (newSemaphore E h v)
     | IncreaseSemaphore g \<Rightarrow> increaseSemaphore_at g h
     | SubmitTasks tasks taskCount \<Rightarrow> outcome (submitTasks E tasks taskCount h)
     | Pop w \<Rightarrow> worker_pop w h
     | Complete w \<Rightarrow> worker_complete w h)"

fun run :: "Env \<Rightarrow> action list \<Rightarrow> ThreadHive \<Rightarrow> ThreadHive option" where
  "run E [] h = Some h"
| "run E (a # as) h = (case step E a h of None \<Rightarrow> None | Some h' \<Rightarrow> run E as h')"

text \<open>
  Modelled from the spec: the states that a hive of \<open>n\<close> workers over the allocator
  \<open>alloc\<close> can reach, by any interleaving of the operations.
\<close>

inductive reachable :: "Env \<Rightarrow> nat \<Rightarrow> StackAllocator \<Rightarrow> ThreadHive \<Rightarrow> bool"
  for E :: Env and n :: nat and alloc :: StackAllocator where
  reachable_init: "reachable E n alloc (ThreadHive_init n alloc)"
| reachable_step: "reachable E n alloc h \<Longrightarrow> step E a h = Some h' \<Longrightarrow> reachable E n alloc h'"

section \<open>Properties of the states of the scheduler\<close>

text \<open>
  The tasks that the hive holds or has completed, and the well-formedness of a state: the
  copies have distinct serial numbers below \<open>next_serial\<close>, and the busy workers are
  distinct workers of the hive.
\<close>

definition all_tasks :: "ThreadHive \<Rightarrow> Task list" where
  "all_tasks h = m_queue h @ blocked h @ map snd (running h) @ completed h"

definition wf1 :: "ThreadHive \<Rightarrow> bool" where
  "wf1 h = (distinct (map serial (all_tasks h)) \<and> list_all (\<lambda>t. serial t < next_serial h) (all_tasks h) \<and>
     distinct (map fst (running h)) \<and> list_all (\<lambda>r. fst r < unat (m_threadCount h)) (running h))"

text \<open>
  The pending counter counts the tasks that are ready, blocked or running (on 32 bits),
  and the submitted tasks are those the hive holds or has completed.
\<close>

definition counted :: "ThreadHive \<Rightarrow> bool" where
  "counted h = (m_pendingTasks h = of_nat (length (m_queue h) + length (blocked h) + length (running h)) \<and>
     mset (submitted h) = mset (all_tasks h))"

text \<open>The signal-gate of every task that has not completed is null or a semaphore.\<close>

definition signals_valid :: "ThreadHive \<Rightarrow> bool" where
  "signals_valid h =
     list_all (\<lambda>t. valid_gate h (m_signalSemaphore (desc t))) (m_queue h @ blocked h @ map snd (running h))"

text \<open>No task has been woken twice, and a woken task is ready, running or completed.\<close>

definition woken_once :: "ThreadHive \<Rightarrow> bool" where
  "woken_once h = (distinct (map serial (woken h)) \<and>
     set (woken h) \<subseteq> set (m_queue h @ map snd (running h) @ completed h))"

text \<open>
  A task with no wait-gate, and the order of such tasks: started or ready, they are in the
  order of their submission; no task without a wait-gate is blocked.
\<close>

definition ungated :: "Task \<Rightarrow> bool" where
  "ungated t = (m_waitSemaphore (desc t) = nullptr)"

definition fifo :: "ThreadHive \<Rightarrow> bool" where
  "fifo h = (filter ungated (started h @ m_queue h) = filter ungated (submitted h) \<and>
     set (started h @ m_queue h @ blocked h) \<subseteq> set (submitted h) \<and>
     list_all (\<lambda>t. \<not> ungated t) (blocked h))"

text \<open>The callbacks run one after the other: the started tasks are the completed ones and the running one.\<close>

definition sequential :: "ThreadHive \<Rightarrow> bool" where
  "sequential h = (started h = completed h @ map snd (running h))"

text \<open>The copies that \<open>submitTasks\<close> makes of an array of tasks, numbered from \<open>k\<close>.\<close>

fun copies :: "nat \<Rightarrow> ThreadHiveTask list \<Rightarrow> Task list" where
  "copies k [] = []"
| "copies k (t # ts) = \<lparr>serial = k, desc = t\<rparr> # copies (Suc k) ts"

text \<open>
  The invariant of the queue (section 3 of the specification), over the tasks that are
  submitted and not started: the ready ones have no wait-gate or a wait-gate at 0, the
  blocked ones have a wait-gate that is not at 0.
\<close>

definition queue_inv :: "ThreadHive \<Rightarrow> bool" where
  "queue_inv h = (list_all (\<lambda>t. gate_open h (desc t)) (m_queue h) \<and>
     list_all (\<lambda>t. \<not> gate_open h (desc t)) (blocked h))"

text \<open>
  The tasks that are submitted and not started, and the invariant as the specification
  words it: such a task is in the ready queue if and only if it has no wait-gate or its
  wait-gate's counter is 0. The tasks of the ready queue are among them.
\<close>

definition unstarted :: "ThreadHive \<Rightarrow> Task list" where
  "unstarted h = filter (\<lambda>t. t \<notin> set (started h)) (submitted h)"

definition ready_iff :: "ThreadHive \<Rightarrow> bool" where
  "ready_iff h = (list_all (\<lambda>t. (t \<in> set (m_queue h)) = gate_open h (desc t)) (unstarted h) \<and>
     list_all (\<lambda>t. t \<in> set (unstarted h)) (m_queue h))"

text \<open>The started tasks are the running and the completed ones.\<close>

definition started_inv :: "ThreadHive \<Rightarrow> bool" where
  "started_inv h = (mset (started h) = mset (map snd (running h) @ completed h))"

text \<open>
  The discipline under which the invariant of the queue holds: \<open>newSemaphore\<close> returns an
  address that is not the wait-gate of a task that is ready or blocked;
  \<open>increaseSemaphore\<close> is applied to a counter that is neither 0 nor \<open>2^32 - 1\<close>; no task
  signals a gate whose counter is already 0.
\<close>

definition disciplined :: "Env \<Rightarrow> action \<Rightarrow> ThreadHive \<Rightarrow> bool" where
  "disciplined E a h =
    (case a of
       NewSemaphore v \<Rightarrow>
         (case fst (newSemaphore E h v) of
            Inl e \<Rightarrow> True
          | Inr sem \<Rightarrow> \<not> list_ex (waits_on sem) (m_queue h @ blocked h))
     | IncreaseSemaphore g \<Rightarrow>
         (case sems h g of None \<Rightarrow> True | Some sem \<Rightarrow> m_atomic sem \<noteq> 0 \<and> m_atomic sem + 1 \<noteq> 0)
     | SubmitTasks tasks taskCount \<Rightarrow> True
     | Pop w \<Rightarrow> True
     | Complete w \<Rightarrow>
         (case map_of (running h) w of
            None \<Rightarrow> True
          | Some t \<Rightarrow>
              (case sems h (m_signalSemaphore (desc t)) of
                 None \<Rightarrow> True
               | Some sem \<Rightarrow> m_signalSemaphore (desc t) = nullptr \<or> m_atomic sem \<noteq> 0)))"

text \<open>The states that the hive reaches by steps that keep the discipline.\<close>

inductive reachable_ok :: "Env \<Rightarrow> nat \<Rightarrow> StackAllocator \<Rightarrow> ThreadHive \<Rightarrow> bool"
  for E :: Env and n :: nat and alloc :: StackAllocator where
  reachable_ok_init: "reachable_ok E n alloc (ThreadHive_init n alloc)"
| reachable_ok_step:
    "reachable_ok E n alloc h \<Longrightarrow> disciplined E a h \<Longrightarrow> step E a h = Some h' \<Longrightarrow>
     reachable_ok E n alloc h'"

fun run_ok :: "Env \<Rightarrow> action list \<Rightarrow> ThreadHive \<Rightarrow> ThreadHive option" where
  "run_ok E [] h = Some h"
| "run_ok E (a # as) h =
     (if disciplined E a h then (case step E a h of None \<Rightarrow> None | Some h' \<Rightarrow> run_ok E as h')
      else None)"

section \<open>Sequences of calls to the stack pool\<close>

text \<open>
  A block of the pool, from its first byte (where the header is) to the byte after its
  last one. The pointer that \<open>allocate\<close> returns for it is its start plus \<open>m_headerSize\<close>.
\<close>

type_synonym block = "nat \<times> nat"

text \<open>
  A pool together with two lists that the source does not keep: \<open>live\<close>, the blocks of
  the pointers that \<open>allocate\<close> has returned and that have not been passed to \<open>free\<close>,
  and \<open>dead\<close>, the blocks for which \<open>free\<close> has returned false.
\<close>

type_synonym tracked = "Implementation \<times> block list \<times> block list"

text \<open>The calls \<open>allocate(size, alignment)\<close> and \<open>free(ptr)\<close>, as data.\<close>

datatype pool_op = Allocate nat nat | Free nat

text \<open>
  One call. \<open>None\<close> is a call that ends the program (a failed assertion, undefined
  behaviour) or that is outside the sequences considered: a \<open>free\<close> of a pointer that is
  not one of the live pointers (never returned by \<open>allocate\<close>, or freed already), and an
  allocation whose block is too short for the four bytes of its header (the rounded size
  is that small only when the sum of the size and the header wraps). An allocation that
  returns the null pointer records no block; the top has moved all the same.
\<close>

definition pool_step :: "Env \<Rightarrow> pool_op \<Rightarrow> tracked \<Rightarrow> tracked option" where
  "pool_step E op st =
    (case st of (s, live, dead) \<Rightarrow>
      (case op of
         Allocate n al \<Rightarrow>
           (case Implementation_allocate E s n al of
              (Inl e, s') \<Rightarrow> None
            | (Inr p, s') \<Rightarrow>
                if p = nullptr then Some (s', live, dead)
                else if m_top s + 4 \<le> m_top s' then Some (s', (m_top s, m_top s') # live, dead)
                else None)
       | Free p \<Rightarrow>
           if \<not> list_ex (\<lambda>blk. fst blk + m_headerSize s = p) live then None
           else (case Implementation_free E s p of
                   (Inl e, s') \<Rightarrow> None
                 | (Inr r, s') \<Rightarrow>
                     Some (s', filter (\<lambda>blk. fst blk + m_headerSize s \<noteq> p) live,
                           if r then dead
                           else filter (\<lambda>blk. fst blk + m_headerSize s = p) live @ dead))))"

fun pool_run :: "Env \<Rightarrow> pool_op list \<Rightarrow> tracked \<Rightarrow> tracked option" where
  "pool_run E [] st = Some st"
| "pool_run E (op # ops) st = (case pool_step E op st of None \<Rightarrow> None | Some st' \<Rightarrow> pool_run E ops st')"

text \<open>
  The states that a pool reaches from \<open>s0\<close> by calls to \<open>allocate\<close> and \<open>free\<close>, where
  \<open>s0\<close> is a created pool (its memory is not null) whose top is not below its memory, with
  no block handed out. Neither \<open>reset\<close> nor \<open>resetUsingSnapshot\<close> is among the calls.
\<close>

inductive pool_reach :: "Env \<Rightarrow> Implementation \<Rightarrow> tracked \<Rightarrow> bool"
  for E :: Env and s0 :: Implementation where
  pool_reach_init: "m_memory s0 \<noteq> nullptr \<Longrightarrow> m_memory s0 \<le> m_top s0 \<Longrightarrow> pool_reach E s0 (s0, [], [])"
| pool_reach_step: "pool_reach E s0 st \<Longrightarrow> pool_step E op st = Some st' \<Longrightarrow> pool_reach E s0 st'"

text \<open>Two blocks overlap when they have a byte in common.\<close>

definition overlap :: "block \<Rightarrow> block \<Rightarrow> bool" where
  "overlap x y = (fst x < snd y \<and> fst y < snd x)"

text \<open>
  The invariant of these states: the configuration of the pool is that of \<open>s0\<close>; every
  recorded block holds its header and lies within the memory and below the top; two
  recorded blocks are the same or apart; no live block is dead; and every live block has
  an aligned pointer and its size in its header.
\<close>

definition same_pool :: "Implementation \<Rightarrow> Implementation \<Rightarrow> bool" where
  "same_pool s0 s = (m_memory s = m_memory s0 \<and> m_memsize s = m_memsize s0 \<and>
     m_alignmentBytes s = m_alignmentBytes s0 \<and> m_headerSize s = m_headerSize s0)"

definition block_ok :: "Implementation \<Rightarrow> block \<Rightarrow> bool" where
  "block_ok s blk = (m_memory s \<le> fst blk \<and> fst blk + 4 \<le> snd blk \<and> snd blk \<le> m_top s \<and>
     snd blk \<le> m_memory s + m_memsize s)"

definition apart :: "block \<Rightarrow> block \<Rightarrow> bool" where
  "apart x y = (x = y \<or> snd x \<le> fst y \<or> snd y \<le> fst x)"

definition header_ok :: "Env \<Rightarrow> Implementation \<Rightarrow> block \<Rightarrow> bool" where
  "header_ok E s blk = (isAligned E (m_alignmentBytes s) (fst blk + m_headerSize s) \<and>
     unat (load_U32 (bytes s) (fst blk)) = snd blk - fst blk)"

definition pool_inv :: "Env \<Rightarrow> Implementation \<Rightarrow> tracked \<Rightarrow> bool" where
  "pool_inv E s0 st =
    (case st of (s, live, dead) \<Rightarrow>
       same_pool s0 s \<and> m_memory s \<noteq> nullptr \<and> m_memory s \<le> m_top s \<and>
       list_all (block_ok s) (live @ dead) \<and>
       list_all (\<lambda>x. list_all (apart x) (live @ dead)) (live @ dead) \<and>
       list_all (\<lambda>x. x \<notin> set dead) live \<and>
       list_all (header_ok E s) live)"

section \<open>Concrete instances\<close>

text \<open>
  An environment with the usual round-up and alignment test, and a pool of 64 bytes at
  address 64 with 4-byte alignment and a 4-byte block header: a request of 4 bytes takes
  a block of 8.
\<close>

definition E0 :: Env where
  "E0 = \<lparr>getAlignedRoundUp = (\<lambda>a v. ((v + a - 1) div a) * a), isAligned = (\<lambda>a p. p mod a = 0),
          defaultAlignment = 4, sizeof_Task = 40\<rparr>"

definition pool0 :: Implementation where
  "pool0 = \<lparr>m_refcount = 1, m_alignmentBytes = 4, m_headerSize = 4, m_memory = 64, m_memsize = 64,
     m_top = 64, m_allocationsCount = 0, bytes = (\<lambda>a. 0xCC)\<rparr>"

text \<open>
  Three allocations A, B and C of 4 bytes (at 68, 76 and 84), then \<open>free(B)\<close> and
  \<open>free(C)\<close>.
\<close>

definition cx10_a :: Implementation where
  "cx10_a = snd (Implementation_allocate E0 pool0 4 4)"

definition cx10_b :: Implementation where
  "cx10_b = snd (Implementation_allocate E0 cx10_a 4 4)"

definition cx10_c :: Implementation where
  "cx10_c = snd (Implementation_allocate E0 cx10_b 4 4)"

definition cx10_fb :: Implementation where
  "cx10_fb = snd (Implementation_free E0 cx10_c 76)"

definition cx10_fc :: Implementation where
  "cx10_fc = snd (Implementation_free E0 cx10_fb 84)"

text \<open>The three allocations and \<open>free(B)\<close>, as a sequence of calls.\<close>

definition w10_ops :: "pool_op list" where
  "w10_ops = [Allocate 4 4, Allocate 4 4, Allocate 4 4, Free 76]"

text \<open>The same pool with no room left, and a hive of one worker over each of the two.\<close>

definition pool_full :: Implementation where
  "pool_full = pool0\<lparr>m_top := 128\<rparr>"

definition hive0 :: ThreadHive where
  "hive0 = ThreadHive_init 1 (Some (Some pool0))"

definition hive_full :: ThreadHive where
  "hive_full = ThreadHive_init 1 (Some (Some pool_full))"

text \<open>
  A pool of 4096 bytes, hives of one and of two workers over it, and three kinds of task.
  The first semaphore of such a hive is at address 68.
\<close>

definition pool_big :: Implementation where
  "pool_big = pool0\<lparr>m_memsize := 4096\<rparr>"

definition alloc_big :: StackAllocator where
  "alloc_big = Some (Some pool_big)"

definition hive1 :: ThreadHive where
  "hive1 = ThreadHive_init 1 alloc_big"

definition hive2 :: ThreadHive where
  "hive2 = ThreadHive_init 2 alloc_big"

definition plain :: "nat \<Rightarrow> ThreadHiveTask" where
  "plain cb = \<lparr>m_callback = cb, m_argument = 0, m_waitSemaphore = nullptr, m_signalSemaphore = nullptr\<rparr>"

definition waiting :: "nat \<Rightarrow> nat \<Rightarrow> ThreadHiveTask" where
  "waiting cb g = \<lparr>m_callback = cb, m_argument = 0, m_waitSemaphore = g, m_signalSemaphore = nullptr\<rparr>"

definition signalling :: "nat \<Rightarrow> nat \<Rightarrow> ThreadHiveTask" where
  "signalling cb g = \<lparr>m_callback = cb, m_argument = 0, m_waitSemaphore = nullptr, m_signalSemaphore = g\<rparr>"

text \<open>A semaphore and three tasks to submit: one signals it, one waits on it, one has no gate.\<close>

definition w1_run :: "action list" where
  "w1_run = [NewSemaphore 1]"

definition w1 :: ThreadHive where
  "w1 = the (run E0 w1_run hive2)"

definition w1_tasks :: "ThreadHiveTask list" where
  "w1_tasks = [signalling 7 68, waiting 8 68, plain 9]"

text \<open>
  A task that waits on a semaphore of value 1 is submitted after the signaller has
  completed (\<open>cx2_past\<close> is the state then) and is ready at once; then the semaphore is
  increased, and a second task that waits on it is submitted.
\<close>

definition cx2_run :: "action list" where
  "cx2_run = [NewSemaphore 1, SubmitTasks [signalling 7 68] 1, Pop 0, Complete 0,
              SubmitTasks [waiting 8 68] 1, IncreaseSemaphore 68, SubmitTasks [waiting 9 68] 1]"

definition cx2_past :: ThreadHive where
  "cx2_past = the (run E0 (take 4 cx2_run) hive1)"

definition cx2 :: ThreadHive where
  "cx2 = the (run E0 cx2_run hive1)"

text \<open>The same, with a second signaller in the place of the increase.\<close>

definition cx2b_run :: "action list" where
  "cx2b_run = [NewSemaphore 1, SubmitTasks [signalling 7 68] 1, Pop 0, Complete 0,
               SubmitTasks [signalling 9 68, waiting 8 68] 2, Pop 0, Complete 0]"

definition cx2b :: ThreadHive where
  "cx2b = the (run E0 cx2b_run hive1)"

text \<open>
  A semaphore of value \<open>2^32 - 1\<close>, a task that waits on it, and an increase, which
  wraps the counter to 0.
\<close>

definition cx2c_run :: "action list" where
  "cx2c_run = [NewSemaphore 0xFFFFFFFF, SubmitTasks [waiting 8 68] 1, IncreaseSemaphore 68]"

definition cx2c :: ThreadHive where
  "cx2c = the (run E0 cx2c_run hive1)"

text \<open>
  Dynamic widening: a semaphore of value 2, a signaller that increases it while it runs
  and submits two more signallers after it has completed, and a task that waits on it.
\<close>

definition w2_run :: "action list" where
  "w2_run = [NewSemaphore 2, SubmitTasks [signalling 7 68, waiting 8 68] 2, Pop 0,
             IncreaseSemaphore 68, Complete 0, SubmitTasks [signalling 9 68, signalling 10 68] 2]"

definition w2_mid :: ThreadHive where
  "w2_mid = the (run_ok E0 w2_run hive2)"

definition w2_end :: ThreadHive where
  "w2_end = the (run_ok E0 (w2_run @ [Pop 0, Pop 1, Complete 1, Complete 0]) hive2)"

text \<open>A task that waits on a semaphore is submitted alone.\<close>

definition cx3_run :: "action list" where
  "cx3_run = [NewSemaphore 1, SubmitTasks [waiting 7 68] 1]"

definition cx3 :: ThreadHive where
  "cx3 = the (run E0 cx3_run hive1)"

text \<open>
  Reentrant submission: the callback of the first task submits a second task while it
  runs; \<open>w3_mid\<close> is the state when the first task has completed.
\<close>

definition w3_run :: "action list" where
  "w3_run = [SubmitTasks [plain 7] 1, Pop 0, SubmitTasks [plain 8] 1, Complete 0, Pop 0, Complete 0]"

definition w3_mid :: ThreadHive where
  "w3_mid = the (run E0 (take 4 w3_run) hive1)"

definition w3_end :: ThreadHive where
  "w3_end = the (run E0 w3_run hive1)"

text \<open>A signaller runs on worker 0 while the task that waits on its gate is blocked.\<close>

definition w4_run :: "action list" where
  "w4_run = [NewSemaphore 1, SubmitTasks [signalling 7 68, waiting 8 68] 2, Pop 0]"

definition w4 :: ThreadHive where
  "w4 = the (run E0 w4_run hive2)"

text \<open>Three tasks with no gate on a hive of one worker, run to the end.\<close>

definition w6_run :: "action list" where
  "w6_run = [SubmitTasks [plain 7, plain 8, plain 9] 3, Pop 0, Complete 0, Pop 0, Complete 0,
             Pop 0, Complete 0]"

definition w6_end :: ThreadHive where
  "w6_end = the (run E0 w6_run hive1)"

section \<open>Facts about raw memory\<close>

lemma load_store_U32: "load_U32 (store_U32 mem p w) p = w"
  unfolding load_U32_def store_U32_def
  apply simp
  apply (rule bit_word_eqI)
  apply (auto simp add: bit_simps)
  subgoal for n by (cases "n < 24") auto
  done

lemmas pool_eval = Implementation_allocate_def Implementation_free_def E0_def pool0_def Let_def
  MAX_U32_def nullptr_def load_U32_def store_U32_def memset_def

lemmas hive_eval = newSemaphore_def StackAllocator_allocate_def StackMemoryPool_allocate_def
  ThreadHive_init_def hive0_def hive_full_def pool_full_def

lemma load_memset_other:
  "p + 4 \<le> q \<Longrightarrow> load_U32 (store_U32 (memset mem q v n) q w) p = load_U32 mem p"
  by (simp add: load_U32_def store_U32_def memset_def)

section \<open>The stack pool\<close>

text \<open>An allocation leaves the headers of the blocks below the top as they are; a free writes no byte.\<close>

lemma allocate_keeps_header:
  "q + 4 \<le> m_top s \<Longrightarrow>
   load_U32 (bytes (snd (Implementation_allocate E s n al))) q = load_U32 (bytes s) q"
  by (simp add: Implementation_allocate_def Let_def load_memset_other)

lemma free_keeps_bytes: "bytes (snd (Implementation_free E s p)) = bytes s"
  by (simp add: Implementation_free_def Let_def)

text \<open>
  What a successful allocation establishes: the block starts at the old top and ends at
  the new one, and its header holds its size.
\<close>

lemma allocate_block:
  assumes "Implementation_allocate E s0 n al = (Inr p, s1)" "p \<noteq> nullptr"
  shows "p = m_top s0 + m_headerSize s0"
    and "m_top s0 \<le> m_top s1"
    and "unat (load_U32 (bytes s1) (m_top s0)) = m_top s1 - m_top s0"
    and "m_top s1 \<le> m_memory s0 + m_memsize s0"
    and "isAligned E (m_alignmentBytes s0) p"
    and "m_memory s0 \<noteq> nullptr"
    and "m_memory s1 = m_memory s0" and "m_memsize s1 = m_memsize s0"
    and "m_alignmentBytes s1 = m_alignmentBytes s0" and "m_headerSize s1 = m_headerSize s0"
    and "m_allocationsCount s1 = m_allocationsCount s0 + 1"
  using assms
  by (auto simp add: Implementation_allocate_def Let_def load_store_U32 MAX_U32_def unat_of_nat
      split: if_splits)

text \<open>
  Claim C10, as stated, fails: the block of a pointer can be the most recent allocation
  that is not yet freed without being at the top of the stack. After the allocations A,
  B and C, \<open>free(B)\<close> returns false and leaves B's block on the stack, \<open>free(C)\<close> rolls the
  top back to the end of B, and \<open>free(A)\<close> returns false and reclaims nothing, although A
  is the only allocation still outstanding.
\<close>

theorem free_most_recent_outstanding_not_reclaimed:
  "fst (Implementation_allocate E0 pool0 4 4) = Inr 68 \<and>
   fst (Implementation_allocate E0 cx10_a 4 4) = Inr 76 \<and>
   fst (Implementation_allocate E0 cx10_b 4 4) = Inr 84 \<and>
   fst (Implementation_free E0 cx10_c 76) = Inr False \<and>
   fst (Implementation_free E0 cx10_fb 84) = Inr True \<and>
   fst (Implementation_free E0 cx10_fc 68) = Inr False \<and>
   m_top (snd (Implementation_free E0 cx10_fc 68)) = 80"
  by (simp add: cx10_a_def cx10_b_def cx10_c_def cx10_fb_def cx10_fc_def pool_eval)

text \<open>
  The free of a block that is within the memory, with an aligned pointer and its size in
  its header.
\<close>

lemma free_block:
  assumes "m_memory s \<noteq> nullptr" "block_ok s (b, e)" "header_ok E s (b, e)"
  shows "Implementation_free E s (b + m_headerSize s) =
           (Inr (m_top s = e),
            s\<lparr>m_top := (if m_top s = e then b else m_top s),
              m_allocationsCount := m_allocationsCount s - 1\<rparr>)"
proof -
  have nn: "b + m_headerSize s \<noteq> nullptr" using assms(1,2) by (simp add: block_ok_def nullptr_def)
  have e: "b + (e - b) = e" using assms(2) by (simp add: block_ok_def)
  show ?thesis
    using assms nn e by (simp add: Implementation_free_def Let_def block_ok_def header_ok_def)
qed

lemma allocate_null:
  assumes "Implementation_allocate E s n al = (Inr nullptr, s')" "m_top s \<noteq> 0"
  shows "s' = s\<lparr>m_top := m_top s + block_size E s n\<rparr>"
  using assms
  by (auto simp add: Implementation_allocate_def Let_def block_size_def nullptr_def split: if_splits)

lemma block_ok_mono:
  "block_ok s x \<Longrightarrow> m_top s \<le> m_top s' \<Longrightarrow> m_memory s' = m_memory s \<Longrightarrow>
   m_memsize s' = m_memsize s \<Longrightarrow> block_ok s' x"
  by (simp add: block_ok_def)

lemma pool_inv_allocate:
  assumes inv: "pool_inv E s0 (s, live, dead)"
    and st: "pool_step E (Allocate n al) (s, live, dead) = Some st'"
  shows "pool_inv E s0 st'"
proof (cases "Implementation_allocate E s n al")
  case (Pair res s')
  from inv have sp: "same_pool s0 s" and mem: "m_memory s \<noteq> nullptr" and mt: "m_memory s \<le> m_top s"
    and ok: "\<forall>x\<in>set (live @ dead). block_ok s x"
    and ap: "\<forall>x\<in>set (live @ dead). \<forall>y\<in>set (live @ dead). apart x y"
    and ld: "\<forall>x\<in>set live. x \<notin> set dead"
    and hd: "\<forall>x\<in>set live. header_ok E s x"
    by (simp_all add: pool_inv_def list_all_iff)
  from st Pair obtain p where res: "res = Inr p" by (cases res) (simp_all add: pool_step_def)
  show ?thesis
  proof (cases "p = nullptr")
    case True
    with st Pair res have st': "st' = (s', live, dead)" by (simp add: pool_step_def)
    from mem mt have "m_top s \<noteq> 0" by (simp add: nullptr_def)
    with Pair res True have s': "s' = s\<lparr>m_top := m_top s + block_size E s n\<rparr>"
      by (intro allocate_null) simp_all
    have ok': "\<forall>x\<in>set (live @ dead). block_ok s' x"
      using ok unfolding s' by (auto intro: block_ok_mono)
    have hd': "\<forall>x\<in>set live. header_ok E s' x"
      using hd unfolding s' by (simp add: header_ok_def)
    have sp': "same_pool s0 s'" "m_memory s' \<noteq> nullptr" "m_memory s' \<le> m_top s'"
      using sp mem mt unfolding s' by (simp_all add: same_pool_def)
    show ?thesis
      unfolding st' using sp' ok' ap ld hd'
      by (simp add: pool_inv_def list_all_iff)
  next
    case False
    with st Pair res have big: "m_top s + 4 \<le> m_top s'"
      and st': "st' = (s', (m_top s, m_top s') # live, dead)"
      by (simp_all add: pool_step_def split: if_splits)
    from Pair res have a: "Implementation_allocate E s n al = (Inr p, s')" by simp
    note b = allocate_block [OF a False]
    have sp': "same_pool s0 s'" using sp b by (simp add: same_pool_def)
    have top: "m_top s \<le> m_top s'" using b by simp
    have new_ok: "block_ok s' (m_top s, m_top s')"
      using b big mt by (simp add: block_ok_def)
    have old_ok: "\<forall>x\<in>set (live @ dead). block_ok s' x"
      using ok top b by (auto intro: block_ok_mono)
    have below: "snd x \<le> m_top s" if "x \<in> set (live @ dead)" for x
      using ok that by (auto simp add: block_ok_def)
    have new_ap: "\<forall>x\<in>set (live @ dead). apart (m_top s, m_top s') x \<and> apart x (m_top s, m_top s')"
      using below by (simp add: apart_def)
    have new: "(m_top s, m_top s') \<notin> set dead"
      using below [of "(m_top s, m_top s')"] big by auto
    have hd_old: "header_ok E s' x" if "x \<in> set live" for x
    proof -
      from that ok have "block_ok s x" by auto
      then have "fst x + 4 \<le> m_top s" by (simp add: block_ok_def)
      then have "load_U32 (bytes (snd (Implementation_allocate E s n al))) (fst x) = load_U32 (bytes s) (fst x)"
        by (rule allocate_keeps_header)
      with that hd a b show ?thesis by (auto simp add: header_ok_def)
    qed
    have hd_new: "header_ok E s' (m_top s, m_top s')"
      using b by (simp add: header_ok_def)
    have self: "apart (m_top s, m_top s') (m_top s, m_top s')" by (simp add: apart_def)
    have m: "m_memory s' \<noteq> nullptr" "m_memory s' \<le> m_top s'" using b mem mt top by simp_all
    show ?thesis
      unfolding st' using sp' m new_ok old_ok new_ap self ap new ld hd_old hd_new
      by (simp add: pool_inv_def list_all_iff ball_Un)
  qed
qed

lemma pool_inv_free:
  assumes inv: "pool_inv E s0 (s, live, dead)"
    and st: "pool_step E (Free p) (s, live, dead) = Some st'"
  shows "pool_inv E s0 st'"
proof -
  from inv have sp: "same_pool s0 s" and mem: "m_memory s \<noteq> nullptr" and mt: "m_memory s \<le> m_top s"
    and ok: "\<forall>x\<in>set (live @ dead). block_ok s x"
    and ap: "\<forall>x\<in>set (live @ dead). \<forall>y\<in>set (live @ dead). apart x y"
    and ld: "\<forall>x\<in>set live. x \<notin> set dead"
    and hd: "\<forall>x\<in>set live. header_ok E s x"
    by (simp_all add: pool_inv_def list_all_iff)
  from st obtain blk where blk: "blk \<in> set live" "fst blk + m_headerSize s = p"
    by (auto simp add: pool_step_def list_ex_iff split: if_splits)
  obtain b e where be: "blk = (b, e)" by (cases blk)
  define s' where "s' = s\<lparr>m_top := (if m_top s = e then b else m_top s),
              m_allocationsCount := m_allocationsCount s - 1\<rparr>"
  have bok: "block_ok s (b, e)" and bhd: "header_ok E s (b, e)"
    using blk ok hd be by auto
  have fr: "Implementation_free E s p = (Inr (m_top s = e), s')"
    using free_block [OF mem bok bhd] blk be by (simp add: s'_def)
  have st': "st' = (s', filter (\<lambda>blk. fst blk + m_headerSize s \<noteq> p) live,
                  if m_top s = e then dead
                  else filter (\<lambda>blk. fst blk + m_headerSize s = p) live @ dead)"
    using st blk fr by (auto simp add: pool_step_def list_ex_iff split: if_splits)
  have sp': "same_pool s0 s'" "m_memory s' \<noteq> nullptr"
    using sp mem by (simp_all add: same_pool_def s'_def)
  have hd': "\<forall>x\<in>set live. header_ok E s' x"
    using hd by (simp add: header_ok_def s'_def)
  show ?thesis
  proof (cases "m_top s = e")
    case True
    have under: "snd x \<le> b" if x: "x \<in> set (live @ dead)" and ne: "x \<noteq> (b, e)" for x
    proof -
      from ap x blk be have "apart x (b, e)" by auto
      moreover from ok x have "fst x + 4 \<le> snd x" "snd x \<le> m_top s" by (auto simp add: block_ok_def)
      ultimately show ?thesis using ne True by (auto simp add: apart_def)
    qed
    have ne_live: "x \<noteq> (b, e)" if "x \<in> set live" "fst x + m_headerSize s \<noteq> p" for x
      using that blk be by auto
    have ne_dead: "x \<noteq> (b, e)" if "x \<in> set dead" for x
      using that ld blk be by auto
    have ok': "block_ok s' x"
      if "x \<in> set (filter (\<lambda>blk. fst blk + m_headerSize s \<noteq> p) live @ dead)" for x
    proof -
      from that have x: "x \<in> set (live @ dead)" and ne: "x \<noteq> (b, e)"
        using ne_live ne_dead by auto
      from under [OF x ne] ok x show ?thesis using True by (auto simp add: block_ok_def s'_def)
    qed
    have mt': "m_memory s' \<le> m_top s'" using bok True by (simp add: block_ok_def s'_def)
    show ?thesis
      unfolding st' using True sp' mt' ok' ap ld hd'
      by (auto simp add: pool_inv_def list_all_iff)
  next
    case False
    have s'top: "m_top s' = m_top s" using False by (simp add: s'_def)
    have ok': "\<forall>x\<in>set (live @ dead). block_ok s' x"
      using ok s'top by (auto intro: block_ok_mono simp add: s'_def)
    have mt': "m_memory s' \<le> m_top s'" using mt s'top by (simp add: s'_def)
    show ?thesis
      unfolding st' using False sp' mt' ok' ap ld hd'
      by (auto simp add: pool_inv_def list_all_iff)
  qed
qed

lemma pool_inv_step:
  assumes "pool_inv E s0 st" "pool_step E op st = Some st'"
  shows "pool_inv E s0 st'"
proof -
  obtain s live dead where "st = (s, live, dead)" by (cases st) auto
  with assms show ?thesis
    by (cases op) (auto intro: pool_inv_allocate pool_inv_free)
qed

lemma pool_reach_inv: "pool_reach E s0 st \<Longrightarrow> pool_inv E s0 st"
proof (induction rule: pool_reach.induct)
  case pool_reach_init
  then show ?case by (simp add: pool_inv_def same_pool_def)
next
  case (pool_reach_step st op st')
  from pool_reach_step.IH pool_reach_step.hyps(2) show ?case by (rule pool_inv_step)
qed

lemma pool_reach_run:
  "pool_reach E s0 st \<Longrightarrow> pool_run E ops st = Some st' \<Longrightarrow> pool_reach E s0 st'"
proof (induction ops arbitrary: st)
  case Nil
  then show ?case by simp
next
  case (Cons op ops)
  from Cons.prems(2) obtain st1 where 1: "pool_step E op st = Some st1" and 2: "pool_run E ops st1 = Some st'"
    by (auto split: option.splits)
  from Cons.prems(1) 1 have "pool_reach E s0 st1" by (rule pool_reach_step)
  then show ?case using 2 by (rule Cons.IH)
qed

lemma pool_step_dead:
  assumes "pool_step E op (s, live, dead) = Some (s', live', dead')"
  shows "set dead \<subseteq> set dead'"
  using assms
  by (cases op) (auto simp add: pool_step_def split: if_splits prod.splits sum.splits)

text \<open>
  Claim C10, amended: consider a pool that is used by calls to \<open>allocate\<close> and \<open>free\<close>
  only, where \<open>free\<close> is called on pointers that \<open>allocate\<close> has returned and that have
  not been freed yet (and every block holds the four bytes of its header). In every
  state so reached, and for every such pointer, \<open>free(ptr)\<close> decrements the allocation
  count by one; it returns true exactly when the current top is the end of the block of
  the pointer, and then rolls the top back to the start of the block; otherwise it
  returns false, leaves the top where it is, and the block joins the blocks that
  \<open>free\<close> has not reclaimed. A block that \<open>free\<close> has not reclaimed stays one after every
  further call; it lies below the top, it overlaps no block that is handed out, and
  every later allocation returns a pointer beyond its end. \<open>reset\<close> sets the top back to
  the start of the memory. That the block is the most recent outstanding allocation is
  not what decides.
\<close>

theorem free_reclaims_iff_block_ends_at_top:
  assumes "pool_reach E s0 (s, live, dead)"
  shows "(\<forall>blk\<in>set live.
            Implementation_free E s (fst blk + m_headerSize s) =
              (Inr (m_top s = snd blk),
               s\<lparr>m_top := (if m_top s = snd blk then fst blk else m_top s),
                 m_allocationsCount := m_allocationsCount s - 1\<rparr>) \<and>
            (\<exists>s' live' dead'.
               pool_step E (Free (fst blk + m_headerSize s)) (s, live, dead) = Some (s', live', dead') \<and>
               blk \<notin> set live' \<and> (blk \<in> set dead') = (m_top s \<noteq> snd blk))) \<and>
         (\<forall>blk\<in>set dead.
            m_memory s \<le> fst blk \<and> snd blk \<le> m_top s \<and> (\<forall>x\<in>set live. \<not> overlap blk x) \<and>
            (\<forall>n al p s'. Implementation_allocate E s n al = (Inr p, s') \<and> p \<noteq> nullptr \<longrightarrow>
               snd blk + m_headerSize s \<le> p)) \<and>
         (\<forall>op s' live' dead'.
            pool_step E op (s, live, dead) = Some (s', live', dead') \<longrightarrow> set dead \<subseteq> set dead') \<and>
         Implementation_reset s =
           Inr (s\<lparr>bytes := memset (bytes s) (m_memory s) 0xCC (m_memsize s), m_top := m_memory s\<rparr>)"
proof -
  from assms have "pool_inv E s0 (s, live, dead)" by (rule pool_reach_inv)
  then have mem: "m_memory s \<noteq> nullptr"
    and ok: "\<forall>x\<in>set (live @ dead). block_ok s x"
    and ap: "\<forall>x\<in>set (live @ dead). \<forall>y\<in>set (live @ dead). apart x y"
    and ld: "\<forall>x\<in>set live. x \<notin> set dead"
    and hd: "\<forall>x\<in>set live. header_ok E s x"
    by (simp_all add: pool_inv_def list_all_iff)
  have 1: "Implementation_free E s (fst blk + m_headerSize s) =
              (Inr (m_top s = snd blk),
               s\<lparr>m_top := (if m_top s = snd blk then fst blk else m_top s),
                 m_allocationsCount := m_allocationsCount s - 1\<rparr>)" if "blk \<in> set live" for blk
  proof -
    from that ok hd have "block_ok s (fst blk, snd blk)" "header_ok E s (fst blk, snd blk)" by auto
    with mem show ?thesis by (rule free_block)
  qed
  have 2: "\<exists>s' live' dead'.
       pool_step E (Free (fst blk + m_headerSize s)) (s, live, dead) = Some (s', live', dead') \<and>
       blk \<notin> set live' \<and> (blk \<in> set dead') = (m_top s \<noteq> snd blk)" if "blk \<in> set live" for blk
  proof -
    from that ld have "blk \<notin> set dead" by auto
    with that 1 [OF that] show ?thesis
      by (auto simp add: pool_step_def list_ex_iff)
  qed
  have 3: "m_memory s \<le> fst blk \<and> snd blk \<le> m_top s \<and> (\<forall>x\<in>set live. \<not> overlap blk x) \<and>
            (\<forall>n al p s'. Implementation_allocate E s n al = (Inr p, s') \<and> p \<noteq> nullptr \<longrightarrow>
               snd blk + m_headerSize s \<le> p)"
    if "blk \<in> set dead" for blk
  proof -
    from that ok have b: "block_ok s blk" by auto
    have "\<not> overlap blk x" if x: "x \<in> set live" for x
    proof -
      from x \<open>blk \<in> set dead\<close> ap have "apart blk x" by auto
      moreover from x \<open>blk \<in> set dead\<close> ld have "blk \<noteq> x" by auto
      ultimately show ?thesis by (auto simp add: apart_def overlap_def)
    qed
    moreover have "snd blk + m_headerSize s \<le> p"
      if "Implementation_allocate E s n al = (Inr p, s')" "p \<noteq> nullptr" for n al p s'
      using allocate_block(1) [OF that] b by (simp add: block_ok_def)
    ultimately show ?thesis using b unfolding block_ok_def by blast
  qed
  have 4: "set dead \<subseteq> set dead'" if "pool_step E op (s, live, dead) = Some (s', live', dead')"
    for op s' live' dead'
    using that by (rule pool_step_dead)
  have 5: "Implementation_reset s =
           Inr (s\<lparr>bytes := memset (bytes s) (m_memory s) 0xCC (m_memsize s), m_top := m_memory s\<rparr>)"
    using mem by (simp add: Implementation_reset_def)
  show ?thesis using 1 2 3 4 5 by blast
qed

lemma w10_steps:
  shows "Implementation_allocate E0 pool0 4 4 = (Inr 68, cx10_a)"
    and "Implementation_allocate E0 cx10_a 4 4 = (Inr 76, cx10_b)"
    and "Implementation_allocate E0 cx10_b 4 4 = (Inr 84, cx10_c)"
    and "Implementation_free E0 cx10_c 76 = (Inr False, cx10_fb)"
    and "m_top pool0 = 64" and "m_top cx10_a = 72" and "m_top cx10_b = 80" and "m_top cx10_c = 88"
    and "m_top cx10_fb = 88" and "m_headerSize cx10_c = 4" and "m_headerSize cx10_fb = 4"
    and "m_memory pool0 = 64" and "m_memory cx10_fb = 64"
proof -
  show "Implementation_allocate E0 pool0 4 4 = (Inr 68, cx10_a)"
    by (simp add: prod_eq_iff cx10_a_def) (simp add: pool_eval)
  show "Implementation_allocate E0 cx10_a 4 4 = (Inr 76, cx10_b)"
    by (simp add: prod_eq_iff cx10_b_def) (simp add: cx10_a_def pool_eval)
  show "Implementation_allocate E0 cx10_b 4 4 = (Inr 84, cx10_c)"
    by (simp add: prod_eq_iff cx10_c_def) (simp add: cx10_a_def cx10_b_def pool_eval)
  show "Implementation_free E0 cx10_c 76 = (Inr False, cx10_fb)"
    by (simp add: prod_eq_iff cx10_fb_def) (simp add: cx10_a_def cx10_b_def cx10_c_def pool_eval)
  show "m_top pool0 = 64" "m_top cx10_a = 72" "m_top cx10_b = 80" "m_top cx10_c = 88"
    "m_top cx10_fb = 88" "m_headerSize cx10_c = 4" "m_headerSize cx10_fb = 4" "m_memory pool0 = 64" "m_memory cx10_fb = 64"
    by (simp_all add: cx10_a_def cx10_b_def cx10_c_def cx10_fb_def pool_eval)
qed

lemma w10_run:
  "pool_run E0 w10_ops (pool0, [], []) = Some (cx10_fb, [(80, 88), (64, 72)], [(72, 80)])"
  by (simp add: w10_ops_def pool_step_def w10_steps nullptr_def)

text \<open>
  The theorem after the allocations A, B, C and \<open>free(B)\<close>, which has returned false:
  the top is 88, \<open>free(C)\<close> returns true and rolls the top back to 80, \<open>free(A)\<close>
  returns false and leaves the top, the block of B overlaps neither of the two, and
  \<open>reset\<close> sets the top to 64.
\<close>

theorem free_reclaims_iff_block_ends_at_top_witness:
  "pool_run E0 w10_ops (pool0, [], []) = Some (cx10_fb, [(80, 88), (64, 72)], [(72, 80)]) \<and>
   m_top cx10_fb = 88 \<and>
   fst (Implementation_free E0 cx10_fb 84) = Inr True \<and>
   m_top (snd (Implementation_free E0 cx10_fb 84)) = 80 \<and>
   fst (Implementation_free E0 cx10_fb 68) = Inr False \<and>
   m_top (snd (Implementation_free E0 cx10_fb 68)) = 88 \<and>
   m_allocationsCount (snd (Implementation_free E0 cx10_fb 68)) = m_allocationsCount cx10_fb - 1 \<and>
   \<not> overlap (72, 80) (80, 88) \<and> \<not> overlap (72, 80) (64, 72) \<and>
   (case Implementation_reset cx10_fb of Inl e \<Rightarrow> False | Inr s \<Rightarrow> m_top s = 64)"
proof -
  have "pool_reach E0 pool0 (pool0, [], [])"
    by (rule pool_reach_init) (simp_all add: pool0_def nullptr_def)
  then have "pool_reach E0 pool0 (cx10_fb, [(80, 88), (64, 72)], [(72, 80)])"
    using w10_run by (rule pool_reach_run)
  from free_reclaims_iff_block_ends_at_top [OF this] show ?thesis
    by (simp add: w10_run w10_steps)
qed

section \<open>Semaphores and submission of a single task\<close>

text \<open>
  Claim C9: for every semaphore and every value of its counter, \<open>increaseSemaphore\<close> adds 1
  to the 32-bit unsigned counter (from \<open>2^32 - 1\<close> the sum wraps to 0), the value stays
  at or above 0, and in the hive nothing changes but the counter of that semaphore.
\<close>

theorem increaseSemaphore_adds_one:
  "m_atomic (increaseSemaphore sem) = m_atomic sem + 1 \<and>
   unat (m_atomic (increaseSemaphore sem)) = (unat (m_atomic sem) + 1) mod 2 ^ 32 \<and>
   0 \<le> uint (m_atomic (increaseSemaphore sem)) \<and>
   increaseSemaphore_at g (h\<lparr>sems := (sems h)(g \<mapsto> sem)\<rparr>) =
     Some (h\<lparr>sems := (sems h)(g \<mapsto> sem\<lparr>m_atomic := m_atomic sem + 1\<rparr>)\<rparr>)"
  by (simp add: increaseSemaphore_def increaseSemaphore_at_def unat_word_ariths)

text \<open>
  Claim C7: for every callback and argument, and whatever \<open>submitTasks\<close> does,
  \<open>submitTask(callback, arg)\<close> is \<open>submitTasks\<close> on the array of one task with that
  callback, that argument and null wait and signal semaphores.
\<close>

theorem submitTask_is_submitTasks_singleton:
  "submitTask submitTasks' callback arg h =
     submitTasks' [\<lparr>m_callback = callback, m_argument = arg, m_waitSemaphore = nullptr,
                    m_signalSemaphore = nullptr\<rparr>] 1 h"
  by (simp add: submitTask_def ThreadHiveTask_default_def)

text \<open>
  Claim C5, as stated, fails: with an initial value above 0 and an arena that has no room
  left, \<open>newSemaphore\<close> returns no handle; the allocator's exception leaves the function
  and no semaphore exists.
\<close>

theorem newSemaphore_without_room_returns_no_handle:
  "(0::U32) < 1 \<and> fst (newSemaphore E0 hive_full 1) = Inl out_of_room \<and>
   sems (snd (newSemaphore E0 hive_full 1)) = Map.empty"
  by (simp add: hive_eval pool_eval out_of_room_def)

text \<open>
  Claim C5, amended: \<open>newSemaphore(0)\<close> fails by assertion. For every initial value above
  0 the function allocates 4 bytes from the hive's arena; when the allocation returns a
  pointer, that non-null pointer is returned as the handle and the counter of the
  semaphore there equals the initial value; when the allocation fails, its failure is
  the result and no semaphore is created.
\<close>

theorem newSemaphore_spec:
  "newSemaphore E h 0 = (Inl AssertionFailed, h) \<and>
   (0 < v \<longrightarrow>
     (\<forall>sem a. StackAllocator_allocate E 1 (m_alloc h) 4 = (Inr sem, a) \<longrightarrow>
        sem \<noteq> nullptr \<and>
        newSemaphore E h v = (Inr sem, h\<lparr>m_alloc := a, sems := (sems h)(sem \<mapsto> \<lparr>m_atomic = v\<rparr>)\<rparr>) \<and>
        sems (snd (newSemaphore E h v)) sem = Some \<lparr>m_atomic = v\<rparr>) \<and>
     (\<forall>e a. StackAllocator_allocate E 1 (m_alloc h) 4 = (Inl e, a) \<longrightarrow>
        newSemaphore E h v = (Inl e, h\<lparr>m_alloc := a\<rparr>)))"
  by (auto simp add: newSemaphore_def StackAllocator_allocate_def Let_def
      split: option.splits prod.splits sum.splits if_splits)

text \<open>The theorem on the hive over the empty pool of 64 bytes, with the initial value 3.\<close>

theorem newSemaphore_spec_witness:
  "newSemaphore E0 hive0 0 = (Inl AssertionFailed, hive0) \<and>
   fst (newSemaphore E0 hive0 3) = Inr 68 \<and>
   sems (snd (newSemaphore E0 hive0 3)) 68 = Some \<lparr>m_atomic = 3\<rparr>"
proof -
  have v: "(0::U32) < 3" by simp
  have a: "StackAllocator_allocate E0 1 (m_alloc hive0) 4 = (Inr 68, Some (Some cx10_a))"
    by (simp add: hive_eval prod_eq_iff cx10_a_def) (simp add: pool_eval)
  show ?thesis
    using newSemaphore_spec [of E0 hive0 3] v a by simp
qed

text \<open>
  Claim C8: when the block for a request does not fit in the space that remains between
  the top and the end of the pool's memory, \<open>Implementation::allocate\<close> and
  \<open>StackMemoryPool::allocate\<close> return the null pointer, \<open>StackAllocator::allocate\<close> throws,
  and the exception is the result of \<open>newSemaphore\<close> and of \<open>submitTasks\<close> (the latter as
  the specification describes it): the failure reaches the caller.
\<close>

theorem allocation_failure_reaches_caller:
  assumes pool: "m_alloc h = Some (Some impl)" and mem: "m_memory impl \<noteq> nullptr"
    and al: "defaultAlignment E \<le> m_alignmentBytes impl"
    and n: "n = (cnt * sv) mod 2 ^ 64"
    and small: "block_size E impl n < MAX_U32"
    and full: "m_memory impl + m_memsize impl < m_top impl + block_size E impl n"
  shows "Implementation_allocate E impl n (defaultAlignment E) =
           (Inr nullptr, impl\<lparr>m_top := m_top impl + block_size E impl n\<rparr>) \<and>
         StackMemoryPool_allocate E (Some impl) n (defaultAlignment E) =
           (Inr nullptr, Some (impl\<lparr>m_top := m_top impl + block_size E impl n\<rparr>)) \<and>
         StackAllocator_allocate E sv (m_alloc h) cnt =
           (Inl out_of_room, Some (Some (impl\<lparr>m_top := m_top impl + block_size E impl n\<rparr>))) \<and>
         (cnt = 4 \<and> sv = 1 \<and> 0 < v \<longrightarrow>
            newSemaphore E h v =
              (Inl out_of_room,
               h\<lparr>m_alloc := Some (Some (impl\<lparr>m_top := m_top impl + block_size E impl n\<rparr>))\<rparr>)) \<and>
         (sv = sizeof_Task E \<and> cnt \<le> length tasks \<and>
          \<not> list_ex (\<lambda>t. m_callback t = nullptr) (take cnt tasks) \<and>
          \<not> list_ex (\<lambda>t. \<not> valid_task h t) (take cnt tasks) \<longrightarrow>
            submitTasks E tasks cnt h =
              (Inl out_of_room,
               h\<lparr>m_alloc := Some (Some (impl\<lparr>m_top := m_top impl + block_size E impl n\<rparr>))\<rparr>))"
proof -
  let ?impl' = "impl\<lparr>m_top := m_top impl + block_size E impl n\<rparr>"
  have 1: "Implementation_allocate E impl n (defaultAlignment E) = (Inr nullptr, ?impl')"
    using mem al small full
    by (simp add: Implementation_allocate_def Let_def block_size_def)
  have 2: "StackMemoryPool_allocate E (Some impl) n (defaultAlignment E) = (Inr nullptr, Some ?impl')"
    by (simp add: StackMemoryPool_allocate_def 1)
  have 3: "StackAllocator_allocate E sv (m_alloc h) cnt = (Inl out_of_room, Some (Some ?impl'))"
    using 2 n by (simp add: StackAllocator_allocate_def pool Let_def)
  show ?thesis
    using 1 2 3 by (auto simp add: newSemaphore_def submitTasks_def)
qed

text \<open>
  The theorem on the hive over the full pool: a semaphore (a block of 8 bytes) and a
  single task (a block of 44 bytes) both fail with the allocator's exception.
\<close>

theorem allocation_failure_reaches_caller_witness:
  "fst (Implementation_allocate E0 pool_full 4 4) = Inr nullptr \<and>
   fst (newSemaphore E0 hive_full 1) = Inl out_of_room \<and>
   fst (submitTask (submitTasks E0) 7 0 hive_full) = Inl out_of_room"
proof -
  have p: "m_alloc hive_full = Some (Some pool_full)" by (simp add: hive_eval)
  have m: "m_memory pool_full \<noteq> nullptr" by (simp add: pool_full_def pool0_def nullptr_def)
  have al: "defaultAlignment E0 \<le> m_alignmentBytes pool_full"
    by (simp add: pool_full_def pool0_def E0_def)
  have n4: "(4::nat) = (4 * 1) mod 2 ^ 64" by simp
  have n40: "(40::nat) = (1 * 40) mod 2 ^ 64" by simp
  have b4: "block_size E0 pool_full 4 = 8"
    by (simp add: block_size_def pool_full_def pool0_def E0_def)
  have b40: "block_size E0 pool_full 40 = 44"
    by (simp add: block_size_def pool_full_def pool0_def E0_def)
  have s4: "block_size E0 pool_full 4 < MAX_U32" by (simp add: b4 MAX_U32_def)
  have s40: "block_size E0 pool_full 40 < MAX_U32" by (simp add: b40 MAX_U32_def)
  have f4: "m_memory pool_full + m_memsize pool_full < m_top pool_full + block_size E0 pool_full 4"
    by (simp add: b4) (simp add: pool_full_def pool0_def)
  have f40: "m_memory pool_full + m_memsize pool_full < m_top pool_full + block_size E0 pool_full 40"
    by (simp add: b40) (simp add: pool_full_def pool0_def)
  have t: "valid_task hive_full \<lparr>m_callback = 7, m_argument = 0, m_waitSemaphore = nullptr,
        m_signalSemaphore = nullptr\<rparr>"
    by (simp add: valid_task_def valid_gate_def)
  have "fst (Implementation_allocate E0 pool_full 4 4) = Inr nullptr"
    using allocation_failure_reaches_caller [OF p m al n4 s4 f4, of 1 "[]"] by (simp add: E0_def)
  moreover have "fst (newSemaphore E0 hive_full 1) = Inl out_of_room"
    using allocation_failure_reaches_caller [OF p m al n4 s4 f4, of 1 "[]"] by simp
  moreover have "fst (submitTask (submitTasks E0) 7 0 hive_full) = Inl out_of_room"
    using allocation_failure_reaches_caller [OF p m al n40 s40 f40, of 1
        "[\<lparr>m_callback = 7, m_argument = 0, m_waitSemaphore = nullptr, m_signalSemaphore = nullptr\<rparr>]"] t
    by (simp add: submitTask_def ThreadHiveTask_default_def E0_def nullptr_def)
  ultimately show ?thesis by simp
qed

section \<open>Induction over the reachable states\<close>

text \<open>
  Every step is a composition of seven primitive changes of the state; a property that
  holds initially and that each of them preserves holds in every reachable state.
\<close>

lemma worker_pop_start:
  "worker_pop w h = Some h' \<Longrightarrow>
     h' = start w h \<and> m_queue h \<noteq> [] \<and> w < unat (m_threadCount h) \<and> map_of (running h) w = None"
  by (auto simp add: worker_pop_def start_def split: if_splits list.splits)

lemma submitOne_sems [simp]: "sems (submitOne h t) = sems h"
  by (simp add: submitOne_def Let_def)

lemma valid_task_submitOne [simp]: "valid_task (submitOne h t') = valid_task h"
  by (rule ext) (simp add: valid_task_def valid_gate_def)

lemma wake_fields [simp]:
  "running (wake g h) = running h" "sems (wake g h) = sems h" "m_alloc (wake g h) = m_alloc h"
  "m_threadCount (wake g h) = m_threadCount h" "m_pendingTasks (wake g h) = m_pendingTasks h"
  "next_serial (wake g h) = next_serial h" "submitted (wake g h) = submitted h"
  "started (wake g h) = started h" "completed (wake g h) = completed h"
  by (simp_all add: wake_def)

lemma foldl_submitOne_induct:
  assumes "P h" and "list_all (valid_task h) ts"
    and "\<And>h t. P h \<Longrightarrow> valid_task h t \<Longrightarrow> P (submitOne h t)"
  shows "P (foldl submitOne h ts)"
  using assms(1,2)
proof (induction ts arbitrary: h)
  case Nil
  then show ?case by simp
next
  case (Cons t ts)
  have "P (submitOne h t)" using Cons.prems assms(3) by simp
  moreover have "list_all (valid_task (submitOne h t)) ts" using Cons.prems by simp
  ultimately show ?case using Cons.IH by simp
qed

lemma reachable_prim_induct [consumes 1, case_names init alloc sems submit start wake finish]:
  assumes r: "reachable E n alloc h"
    and init: "P (ThreadHive_init n alloc)"
    and alloc: "\<And>h a. P h \<Longrightarrow> P (h\<lparr>m_alloc := a\<rparr>)"
    and sems: "\<And>h sm. P h \<Longrightarrow> dom (sems h) \<subseteq> dom sm \<Longrightarrow> P (h\<lparr>sems := sm\<rparr>)"
    and submit: "\<And>h t. P h \<Longrightarrow> valid_task h t \<Longrightarrow> P (submitOne h t)"
    and start: "\<And>h w. P h \<Longrightarrow> m_queue h \<noteq> [] \<Longrightarrow> w < unat (m_threadCount h) \<Longrightarrow>
                  map_of (running h) w = None \<Longrightarrow> P (start w h)"
    and wake: "\<And>h g. P h \<Longrightarrow> P (wake g h)"
    and finish: "\<And>h w t. P h \<Longrightarrow> map_of (running h) w = Some t \<Longrightarrow> P (finish w t h)"
  shows "P h"
  using r
proof (induction rule: reachable.induct)
  case reachable_init
  show ?case by (rule init)
next
  case (reachable_step h a h')
  note P = reachable_step.IH
  show ?case
  proof (cases a)
    case (NewSemaphore v)
    with reachable_step.hyps(2) show ?thesis
      by (auto simp add: step_def outcome_def newSemaphore_def
          split: if_splits prod.splits sum.splits error.splits
          intro!: alloc [OF P] sems [OF alloc [OF P]])
  next
    case (IncreaseSemaphore g)
    with reachable_step.hyps(2) show ?thesis
      by (auto simp add: step_def increaseSemaphore_at_def split: option.splits
          intro!: sems [OF P])
  next
    case (SubmitTasks ts c)
    with reachable_step.hyps(2) show ?thesis
      by (auto simp add: step_def outcome_def submitTasks_def list_ex_iff list_all_iff valid_task_def valid_gate_def
          split: if_splits prod.splits sum.splits error.splits
          intro!: alloc [OF P] foldl_submitOne_induct [where P = P] submit)
  next
    case (Pop w)
    with reachable_step.hyps(2) show ?thesis
      using worker_pop_start [of w h h'] start [OF P] by (auto simp add: step_def)
  next
    case (Complete w)
    with reachable_step.hyps(2) show ?thesis
      by (auto simp add: step_def worker_complete_def decreaseSemaphore_def Let_def
          split: option.splits if_splits
          intro!: finish wake sems [OF P] P)
  qed
qed

section \<open>Well-formed states\<close>

lemma running_split:
  assumes "distinct (map fst rs)" "map_of rs w = Some t"
  shows "\<exists>xs ys. rs = xs @ (w, t) # ys \<and> filter (\<lambda>r. fst r \<noteq> w) rs = xs @ ys"
proof -
  from assms(2) have "(w, t) \<in> set rs" by (rule map_of_SomeD)
  then obtain xs ys where rs: "rs = xs @ (w, t) # ys" by (auto dest: split_list)
  with assms(1) have "w \<notin> fst ` set xs" "w \<notin> fst ` set ys" by auto
  then have "filter (\<lambda>r. fst r \<noteq> w) xs = xs" "filter (\<lambda>r. fst r \<noteq> w) ys = ys"
    by (auto simp add: filter_id_conv)
  with rs have "rs = xs @ (w, t) # ys \<and> filter (\<lambda>r. fst r \<noteq> w) rs = xs @ ys" by simp
  then show ?thesis by blast
qed

lemma mset_filter_split: "mset (filter P xs) + mset (filter (\<lambda>x. \<not> P x) xs) = mset xs"
  by (induction xs) auto

lemma distinct_map_mset: "mset xs = mset ys \<Longrightarrow> distinct (map f xs) = distinct (map f ys)"
proof -
  assume "mset xs = mset ys"
  then have "mset (map f xs) = mset (map f ys)" by simp
  then show ?thesis by (rule mset_eq_imp_distinct_iff)
qed

lemma all_tasks_simple [simp]:
  "all_tasks (h\<lparr>m_alloc := a\<rparr>) = all_tasks h" "all_tasks (h\<lparr>sems := sm\<rparr>) = all_tasks h"
  by (simp_all add: all_tasks_def)

lemma all_tasks_submitOne:
  "mset (all_tasks (submitOne h t)) = mset (all_tasks h) + {#\<lparr>serial = next_serial h, desc = t\<rparr>#}"
  by (simp add: all_tasks_def submitOne_def Let_def)

lemma all_tasks_start: "m_queue h \<noteq> [] \<Longrightarrow> mset (all_tasks (start w h)) = mset (all_tasks h)"
  by (cases "m_queue h") (simp_all add: all_tasks_def start_def)

lemma all_tasks_wake: "mset (all_tasks (wake g h)) = mset (all_tasks h)"
  using mset_filter_split [of "waits_on g" "blocked h"]
  by (simp add: all_tasks_def wake_def ac_simps)

lemma all_tasks_finish:
  assumes "distinct (map fst (running h))" "map_of (running h) w = Some t"
  shows "mset (all_tasks (finish w t h)) = mset (all_tasks h)"
proof -
  from running_split [OF assms] obtain xs ys where
    "running h = xs @ (w, t) # ys" "filter (\<lambda>r. fst r \<noteq> w) (running h) = xs @ ys"
    by (elim exE conjE)
  then show ?thesis by (simp add: all_tasks_def finish_def)
qed

lemma wf1_init: "wf1 (ThreadHive_init n alloc)"
  by (simp add: wf1_def all_tasks_def ThreadHive_init_def)

lemma wf1_alloc: "wf1 h \<Longrightarrow> wf1 (h\<lparr>m_alloc := a\<rparr>)"
  by (simp add: wf1_def)

lemma wf1_sems: "wf1 h \<Longrightarrow> wf1 (h\<lparr>sems := sm\<rparr>)"
  by (simp add: wf1_def)

lemma wf1_submitOne:
  assumes "wf1 h"
  shows "wf1 (submitOne h t)"
proof -
  let ?new = "\<lparr>serial = next_serial h, desc = t\<rparr>"
  have m: "mset (all_tasks (submitOne h t)) = mset (?new # all_tasks h)"
    by (simp add: all_tasks_submitOne)
  have d: "distinct (map serial (?new # all_tasks h))"
    using assms by (auto simp add: wf1_def list_all_iff)
  have 1: "distinct (map serial (all_tasks (submitOne h t)))"
    using distinct_map_mset [OF m, of serial] d by simp
  have s: "set (all_tasks (submitOne h t)) = set (?new # all_tasks h)"
    using m by (rule mset_eq_setD)
  have 2: "list_all (\<lambda>t'. serial t' < next_serial (submitOne h t)) (all_tasks (submitOne h t))"
    using assms s by (auto simp add: wf1_def list_all_iff submitOne_def Let_def)
  have 3: "running (submitOne h t) = running h" "m_threadCount (submitOne h t) = m_threadCount h"
    by (simp_all add: submitOne_def Let_def)
  show ?thesis using assms 1 2 3 by (simp add: wf1_def)
qed

lemma wf1_same_tasks:
  assumes "wf1 h" "mset (all_tasks h') = mset (all_tasks h)" "next_serial h' = next_serial h"
    "distinct (map fst (running h'))" "list_all (\<lambda>r. fst r < unat (m_threadCount h')) (running h')"
  shows "wf1 h'"
proof -
  have "distinct (map serial (all_tasks h'))"
    using distinct_map_mset [OF assms(2), of serial] assms(1) by (simp add: wf1_def)
  moreover have "set (all_tasks h') = set (all_tasks h)" using assms(2) by (rule mset_eq_setD)
  ultimately show ?thesis using assms by (simp add: wf1_def list_all_iff)
qed

lemma wf1_start:
  assumes "wf1 h" "m_queue h \<noteq> []" "w < unat (m_threadCount h)" "map_of (running h) w = None"
  shows "wf1 (start w h)"
proof (rule wf1_same_tasks [OF assms(1)])
  show "mset (all_tasks (start w h)) = mset (all_tasks h)" using assms(2) by (rule all_tasks_start)
  show "next_serial (start w h) = next_serial h" by (simp add: start_def)
  show "distinct (map fst (running (start w h)))"
    using assms by (auto simp add: wf1_def start_def map_of_eq_None_iff)
  show "list_all (\<lambda>r. fst r < unat (m_threadCount (start w h))) (running (start w h))"
    using assms by (simp add: wf1_def start_def)
qed

lemma wf1_wake: "wf1 h \<Longrightarrow> wf1 (wake g h)"
  by (rule wf1_same_tasks [where h = h]) (simp_all add: all_tasks_wake wf1_def)

lemma wf1_finish:
  assumes "wf1 h" "map_of (running h) w = Some t"
  shows "wf1 (finish w t h)"
proof (rule wf1_same_tasks [OF assms(1)])
  show "mset (all_tasks (finish w t h)) = mset (all_tasks h)"
    using assms by (intro all_tasks_finish) (simp_all add: wf1_def)
  show "next_serial (finish w t h) = next_serial h" by (simp add: finish_def)
  show "distinct (map fst (running (finish w t h)))"
    using assms(1) by (simp add: wf1_def finish_def distinct_map_filter)
  show "list_all (\<lambda>r. fst r < unat (m_threadCount (finish w t h))) (running (finish w t h))"
    using assms(1) by (simp add: wf1_def finish_def list_all_iff)
qed

lemma reachable_wf1: "reachable E n alloc h \<Longrightarrow> wf1 h"
  by (induction rule: reachable_prim_induct)
    (simp_all add: wf1_init wf1_alloc wf1_sems wf1_submitOne wf1_start wf1_wake wf1_finish)

section \<open>The pending counter\<close>

lemma length_filter_split: "length (filter P xs) + length (filter (\<lambda>x. \<not> P x) xs) = length xs"
  by (induction xs) auto

lemma counted_init: "counted (ThreadHive_init n alloc)"
  by (simp add: counted_def all_tasks_def ThreadHive_init_def)

lemma counted_alloc: "counted h \<Longrightarrow> counted (h\<lparr>m_alloc := a\<rparr>)"
  by (simp add: counted_def)

lemma counted_sems: "counted h \<Longrightarrow> counted (h\<lparr>sems := sm\<rparr>)"
  by (simp add: counted_def)

lemma counted_submitOne: "counted h \<Longrightarrow> counted (submitOne h t)"
  by (simp add: counted_def all_tasks_submitOne) (simp add: submitOne_def Let_def)

lemma counted_start: "counted h \<Longrightarrow> m_queue h \<noteq> [] \<Longrightarrow> counted (start w h)"
  by (simp add: counted_def all_tasks_start) (cases "m_queue h"; simp add: start_def)

lemma of_nat_length_filter_split:
  "(of_nat (length (filter P xs)) + of_nat (length (filter (\<lambda>x. \<not> P x) xs)) :: 'a::semiring_1) =
     of_nat (length xs)"
  by (simp flip: of_nat_add add: length_filter_split)

lemma counted_wake: "counted h \<Longrightarrow> counted (wake g h)"
  using of_nat_length_filter_split [of "waits_on g" "blocked h", where ?'a = "32 word"]
  by (simp add: counted_def all_tasks_wake) (simp add: wake_def)

lemma counted_finish:
  assumes "counted h" "distinct (map fst (running h))" "map_of (running h) w = Some t"
  shows "counted (finish w t h)"
proof -
  from running_split [OF assms(2,3)] obtain xs ys where
    rs: "running h = xs @ (w, t) # ys" "filter (\<lambda>r. fst r \<noteq> w) (running h) = xs @ ys"
    by (elim exE conjE)
  have "mset (submitted (finish w t h)) = mset (all_tasks (finish w t h))"
    using assms by (simp add: counted_def all_tasks_finish) (simp add: finish_def)
  moreover have "m_pendingTasks (finish w t h) =
      of_nat (length (m_queue (finish w t h)) + length (blocked (finish w t h)) + length (running (finish w t h)))"
    using assms(1) rs by (simp add: counted_def finish_def)
  ultimately show ?thesis by (simp add: counted_def)
qed

lemma reachable_counted: "reachable E n alloc h \<Longrightarrow> wf1 h \<and> counted h"
proof (induction rule: reachable_prim_induct)
  case init
  show ?case by (simp add: wf1_init counted_init)
next
  case (alloc h a)
  then show ?case by (simp add: wf1_alloc counted_alloc)
next
  case (sems h sm)
  then show ?case by (simp add: wf1_sems counted_sems)
next
  case (submit h t)
  then show ?case by (simp add: wf1_submitOne counted_submitOne)
next
  case (start h w)
  then show ?case by (simp add: wf1_start counted_start)
next
  case (wake h g)
  then show ?case by (simp add: wf1_wake counted_wake)
next
  case (finish h w t)
  then have wf: "wf1 h" and c: "counted h" by simp_all
  from wf have d: "distinct (map fst (running h))" by (simp add: wf1_def)
  show ?case using wf1_finish [OF wf finish.hyps] counted_finish [OF c d finish.hyps] by simp
qed

section \<open>Signal-gates, wakes and order\<close>

lemma reachable_signals_valid: "reachable E n alloc h \<Longrightarrow> signals_valid h"
proof (induction rule: reachable_prim_induct)
  case init
  show ?case by (simp add: signals_valid_def ThreadHive_init_def)
next
  case (alloc h a)
  then show ?case by (simp add: signals_valid_def valid_gate_def)
next
  case (sems h sm)
  then show ?case by (auto simp add: signals_valid_def valid_gate_def list_all_iff)
next
  case (submit h t)
  then show ?case
    by (auto simp add: signals_valid_def valid_gate_def valid_task_def list_all_iff submitOne_def Let_def)
next
  case (start h w)
  then show ?case
    by (cases "m_queue h") (auto simp add: signals_valid_def valid_gate_def list_all_iff start_def)
next
  case (wake h g)
  then show ?case by (auto simp add: signals_valid_def valid_gate_def list_all_iff wake_def)
next
  case (finish h w t)
  then show ?case by (auto simp add: signals_valid_def valid_gate_def list_all_iff finish_def)
qed

lemma wf1_blocked_disjoint:
  assumes "wf1 h" "t \<in> set (blocked h)" "t' \<in> set (m_queue h @ map snd (running h) @ completed h)"
  shows "serial t \<noteq> serial t'"
proof -
  define A where "A = map serial (m_queue h)"
  define B where "B = map serial (blocked h)"
  define C where "C = map serial (map snd (running h) @ completed h)"
  have "distinct (A @ B @ C)"
    using assms(1) by (simp add: wf1_def all_tasks_def A_def B_def C_def)
  then have d: "set B \<inter> set A = {}" "set B \<inter> set C = {}" by auto
  have b: "serial t \<in> set B" using assms(2) by (simp add: B_def)
  have "serial t' \<in> set A \<union> set C"
    using assms(3) by (auto simp add: A_def C_def)
  with d b show ?thesis by auto
qed

lemma woken_once_wake:
  assumes "wf1 h" "woken_once h"
  shows "woken_once (wake g h)"
proof -
  let ?new = "filter (waits_on g) (blocked h)"
  have d: "distinct (map serial (all_tasks h))" using assms(1) by (simp add: wf1_def)
  then have db: "distinct (map serial ?new)"
    by (simp add: all_tasks_def distinct_map_filter)
  have "serial a \<noteq> serial b" if "a \<in> set (woken h)" "b \<in> set ?new" for a b
  proof -
    have "b \<in> set (blocked h)" using that(2) by simp
    moreover have "a \<in> set (m_queue h @ map snd (running h) @ completed h)"
      using that(1) assms(2) by (auto simp add: woken_once_def)
    ultimately show ?thesis using wf1_blocked_disjoint [OF assms(1)] by metis
  qed
  then have "serial ` set (woken h) \<inter> serial ` set ?new = {}" by blast
  then have "distinct (map serial (woken h @ ?new))"
    using assms(2) db by (simp add: woken_once_def)
  moreover have "set (woken h @ ?new) \<subseteq> set ((m_queue h @ ?new) @ map snd (running h) @ completed h)"
    using assms(2) by (auto simp add: woken_once_def)
  ultimately show ?thesis by (simp add: woken_once_def wake_def)
qed

lemma woken_once_finish:
  assumes "woken_once h" "distinct (map fst (running h))" "map_of (running h) w = Some t"
  shows "woken_once (finish w t h)"
proof -
  from running_split [OF assms(2,3)] obtain xs ys where
    rs: "running h = xs @ (w, t) # ys" "filter (\<lambda>r. fst r \<noteq> w) (running h) = xs @ ys"
    by (elim exE conjE)
  show ?thesis using assms(1) rs by (auto simp add: woken_once_def finish_def)
qed

lemma reachable_woken_once: "reachable E n alloc h \<Longrightarrow> wf1 h \<and> woken_once h"
proof (induction rule: reachable_prim_induct)
  case init
  show ?case by (simp add: wf1_init, simp add: woken_once_def ThreadHive_init_def)
next
  case (alloc h a)
  then show ?case by (simp add: wf1_alloc woken_once_def)
next
  case (sems h sm)
  then show ?case by (simp add: wf1_sems woken_once_def)
next
  case (submit h t)
  then show ?case by (simp add: wf1_submitOne, auto simp add: woken_once_def submitOne_def Let_def)
next
  case (start h w)
  then show ?case
    by (simp add: wf1_start, cases "m_queue h", auto simp add: woken_once_def start_def)
next
  case (wake h g)
  then show ?case by (simp add: wf1_wake woken_once_wake)
next
  case (finish h w t)
  then have wf: "wf1 h" and c: "woken_once h" by simp_all
  from wf have d: "distinct (map fst (running h))" by (simp add: wf1_def)
  show ?case using wf1_finish [OF wf finish.hyps] woken_once_finish [OF c d finish.hyps] by simp
qed

lemma reachable_fifo: "reachable E n alloc h \<Longrightarrow> fifo h"
proof (induction rule: reachable_prim_induct)
  case init
  show ?case by (simp add: fifo_def ThreadHive_init_def)
next
  case (alloc h a)
  then show ?case by (simp add: fifo_def)
next
  case (sems h sm)
  then show ?case by (simp add: fifo_def)
next
  case (submit h t)
  then show ?case
    by (auto simp add: fifo_def submitOne_def Let_def ungated_def gate_open_def)
next
  case (start h w)
  then show ?case by (cases "m_queue h") (auto simp add: fifo_def start_def)
next
  case (wake h g)
  have "filter ungated (filter (waits_on g) (blocked h)) = []"
    using wake.IH by (auto simp add: fifo_def list_all_iff filter_empty_conv)
  with wake.IH show ?case by (auto simp add: fifo_def wake_def list_all_iff)
next
  case (finish h w t)
  then show ?case by (simp add: fifo_def finish_def)
qed

lemma length_running_bound:
  assumes "distinct (map fst rs)" "list_all (\<lambda>r. fst r < k) rs"
  shows "length rs \<le> k"
proof -
  have "length rs = card (set (map fst rs))"
    using assms(1) distinct_card [of "map fst rs"] by simp
  also have "\<dots> \<le> card {..<k}"
    using assms(2) by (intro card_mono) (auto simp add: list_all_iff)
  finally show ?thesis by simp
qed

lemma reachable_sequential:
  "reachable E n alloc h \<Longrightarrow> wf1 h \<and> m_threadCount h = of_nat n \<and> (n = 1 \<longrightarrow> sequential h)"
proof (induction rule: reachable_prim_induct)
  case init
  show ?case by (simp add: wf1_init, simp add: sequential_def ThreadHive_init_def)
next
  case (alloc h a)
  then show ?case by (simp add: wf1_alloc sequential_def)
next
  case (sems h sm)
  then show ?case by (simp add: wf1_sems sequential_def)
next
  case (submit h t)
  then show ?case by (simp add: wf1_submitOne sequential_def) (simp add: submitOne_def Let_def)
next
  case (start h w)
  then show ?case by (simp add: wf1_start sequential_def) (simp add: start_def)
next
  case (wake h g)
  then show ?case by (simp add: wf1_wake sequential_def)
next
  case (finish h w t)
  have wf: "wf1 h" and tc: "m_threadCount h = of_nat n" using finish.IH by simp_all
  have "sequential (finish w t h)" if n: "n = 1"
  proof -
    from running_split [of "running h" w t] wf finish.hyps obtain xs ys where
      rs: "running h = xs @ (w, t) # ys" "filter (\<lambda>r. fst r \<noteq> w) (running h) = xs @ ys"
      by (auto simp add: wf1_def)
    have "length (running h) \<le> 1"
      using length_running_bound [of "running h" "unat (m_threadCount h)"] wf tc n
      by (simp add: wf1_def)
    with rs have "xs = []" "ys = []" by simp_all
    with rs finish.IH n show ?thesis by (simp add: sequential_def finish_def)
  qed
  with wf tc finish.hyps show ?case by (simp add: wf1_finish) (simp add: finish_def)
qed

section \<open>Runs\<close>

lemmas sched_eval = step_def outcome_def submitTasks_def submitOne_def gate_open_def valid_task_def
  valid_gate_def worker_pop_def worker_complete_def decreaseSemaphore_def wake_def finish_def
  waits_on_def increaseSemaphore_at_def increaseSemaphore_def plain_def waiting_def signalling_def
  hive1_def hive2_def alloc_big_def pool_big_def block_size_def

lemma reachable_run:
  "reachable E n alloc h \<Longrightarrow> run E acts h = Some h' \<Longrightarrow> reachable E n alloc h'"
proof (induction acts arbitrary: h)
  case Nil
  then show ?case by simp
next
  case (Cons a acts)
  then show ?case by (auto split: option.splits intro: reachable_step)
qed

lemma reachable_the_run:
  "run E acts (ThreadHive_init n alloc) \<noteq> None \<Longrightarrow>
   reachable E n alloc (the (run E acts (ThreadHive_init n alloc)))"
  using reachable_run [OF reachable_init] by fastforce

section \<open>Drain\<close>

lemma cx3_eval:
  "run E0 cx3_run hive1 \<noteq> None" "m_queue cx3 = []" "running cx3 = []" "m_pendingTasks cx3 = 1"
  "length (blocked cx3) = 1"
  by (simp_all add: cx3_def cx3_run_def sched_eval hive_eval pool_eval)

text \<open>
  Claim C3, as stated, fails: the pending counter is not 0 exactly when the ready queue is
  empty and no worker executes a callback. After the submission of a single task that
  waits on a semaphore of value 1, the queue is empty and both conditions hold, the
  pending counter is 1 and \<open>waitAllTasks\<close> blocks.
\<close>

theorem pending_nonzero_with_empty_queue_and_idle_workers:
  "reachable E0 1 alloc_big cx3 \<and> m_queue cx3 = [] \<and> running cx3 = [] \<and>
   m_pendingTasks cx3 \<noteq> 0 \<and> waitAllTasks cx3 = None"
proof -
  have "reachable E0 1 alloc_big cx3"
    unfolding cx3_def hive1_def using cx3_eval(1) by (intro reachable_the_run) (simp add: hive1_def)
  then show ?thesis by (simp add: cx3_eval waitAllTasks_def)
qed

text \<open>
  Claim C3, amended: in every reachable state with fewer than \<open>2^32\<close> tasks
  outstanding, the pending counter is 0 exactly when the ready queue is empty, no task is
  blocked on a wait-gate and no worker executes a callback; \<open>waitAllTasks\<close> blocks
  exactly while the counter is not 0; and when it returns, every task that was submitted,
  by the driver or by a callback, has completed.
\<close>

theorem pending_zero_iff_no_task_left:
  assumes r: "reachable E n alloc h"
    and small: "length (m_queue h) + length (blocked h) + length (running h) < 2 ^ 32"
  shows "(m_pendingTasks h = 0) = (m_queue h = [] \<and> blocked h = [] \<and> running h = []) \<and>
         (waitAllTasks h = None) = (m_pendingTasks h \<noteq> 0) \<and>
         (waitAllTasks h \<noteq> None \<longrightarrow> waitAllTasks h = Some h \<and> set (submitted h) = set (completed h))"
proof -
  let ?N = "length (m_queue h) + length (blocked h) + length (running h)"
  from reachable_counted [OF r] have c: "m_pendingTasks h = of_nat ?N"
    and m: "mset (submitted h) = mset (all_tasks h)" by (simp_all add: counted_def)
  have "unat (m_pendingTasks h) = ?N"
    using small unfolding c by (simp only: unat_of_nat) simp
  then have z: "(m_pendingTasks h = 0) = (?N = 0)" by (metis unat_eq_0)
  have 1: "(m_pendingTasks h = 0) = (m_queue h = [] \<and> blocked h = [] \<and> running h = [])"
    using z by simp
  have 2: "(waitAllTasks h = None) = (m_pendingTasks h \<noteq> 0)" by (simp add: waitAllTasks_def)
  have s: "set (submitted h) = set (all_tasks h)" using m by (rule mset_eq_setD)
  have 3: "waitAllTasks h \<noteq> None \<longrightarrow> waitAllTasks h = Some h \<and> set (submitted h) = set (completed h)"
    using 1 s by (auto simp add: waitAllTasks_def all_tasks_def)
  show ?thesis using 1 2 3 by blast
qed

lemma w3_eval:
  "run E0 (take 4 w3_run) hive1 \<noteq> None" "run E0 w3_run hive1 \<noteq> None"
  "m_queue w3_mid = [\<lparr>serial = 1, desc = plain 8\<rparr>]" "blocked w3_mid = []" "running w3_mid = []"
  "m_queue w3_end = []" "blocked w3_end = []" "running w3_end = []"
  "completed w3_mid = [\<lparr>serial = 0, desc = plain 7\<rparr>]"
  "completed w3_end = [\<lparr>serial = 0, desc = plain 7\<rparr>, \<lparr>serial = 1, desc = plain 8\<rparr>]"
  by (simp_all add: w3_mid_def w3_end_def w3_run_def sched_eval hive_eval pool_eval)

text \<open>
  The theorem on the reentrant submission: when the parent has completed and the child
  has not, \<open>waitAllTasks\<close> blocks; it returns when both have completed.
\<close>

theorem pending_zero_iff_no_task_left_witness:
  "waitAllTasks w3_mid = None \<and> completed w3_mid = [\<lparr>serial = 0, desc = plain 7\<rparr>] \<and>
   waitAllTasks w3_end = Some w3_end \<and>
   set (submitted w3_end) = {\<lparr>serial = 0, desc = plain 7\<rparr>, \<lparr>serial = 1, desc = plain 8\<rparr>}"
proof -
  have rm: "reachable E0 1 alloc_big w3_mid"
    unfolding w3_mid_def hive1_def using w3_eval(1) by (intro reachable_the_run) (simp add: hive1_def)
  have re: "reachable E0 1 alloc_big w3_end"
    unfolding w3_end_def hive1_def using w3_eval(2) by (intro reachable_the_run) (simp add: hive1_def)
  have sm: "length (m_queue w3_mid) + length (blocked w3_mid) + length (running w3_mid) < 2 ^ 32"
    by (simp add: w3_eval)
  have se: "length (m_queue w3_end) + length (blocked w3_end) + length (running w3_end) < 2 ^ 32"
    by (simp add: w3_eval)
  from pending_zero_iff_no_task_left [OF rm sm] have "waitAllTasks w3_mid = None"
    by (simp add: w3_eval)
  moreover from pending_zero_iff_no_task_left [OF re se]
  have "waitAllTasks w3_end = Some w3_end \<and> set (submitted w3_end) = set (completed w3_end)"
    by (auto simp add: w3_eval)
  ultimately show ?thesis by (simp add: w3_eval)
qed

section \<open>Order of execution\<close>

text \<open>
  Claim C6: in every reachable state the tasks with no wait-gate that have started or are
  ready are in the order of their submission, and a worker takes the task at the head of
  the queue. When no submitted task has a wait-gate, the started tasks followed by the
  queue are the submitted tasks in their order; with one worker at most one callback runs
  at a time and the tasks complete in the order in which they start, so that the order of
  execution is the order of submission.
\<close>

theorem ungated_tasks_fifo:
  assumes r: "reachable E n alloc h"
  shows "filter ungated (started h @ m_queue h) = filter ungated (submitted h) \<and>
         (list_all ungated (submitted h) \<longrightarrow> started h @ m_queue h = submitted h) \<and>
         (\<forall>w h'. worker_pop w h = Some h' \<longrightarrow>
            started h' = started h @ [hd (m_queue h)] \<and> m_queue h' = tl (m_queue h)) \<and>
         (n = 1 \<longrightarrow> length (running h) \<le> 1 \<and> started h = completed h @ map snd (running h))"
proof -
  from reachable_fifo [OF r] have f: "filter ungated (started h @ m_queue h) = filter ungated (submitted h)"
    and sub: "set (started h @ m_queue h) \<subseteq> set (submitted h)" by (auto simp add: fifo_def)
  have 2: "started h @ m_queue h = submitted h" if "list_all ungated (submitted h)"
  proof -
    from that sub have "list_all ungated (started h @ m_queue h)" by (auto simp add: list_all_iff)
    then have "filter ungated (started h @ m_queue h) = started h @ m_queue h"
      by (simp only: filter_id_conv list_all_iff)
    moreover from that have "filter ungated (submitted h) = submitted h"
      by (simp only: filter_id_conv list_all_iff)
    ultimately show ?thesis using f by simp
  qed
  have 3: "started h' = started h @ [hd (m_queue h)] \<and> m_queue h' = tl (m_queue h)"
    if "worker_pop w h = Some h'" for w h'
    using worker_pop_start [OF that] by (simp add: start_def)
  from reachable_sequential [OF r] have wf: "wf1 h" and tc: "m_threadCount h = of_nat n"
    and sq: "n = 1 \<longrightarrow> sequential h" by simp_all
  have 4: "length (running h) \<le> 1 \<and> started h = completed h @ map snd (running h)" if "n = 1"
    using length_running_bound [of "running h" "unat (m_threadCount h)"] wf tc sq that
    by (simp add: wf1_def sequential_def)
  show ?thesis using f 2 3 4 by blast
qed

lemma w6_eval:
  "run E0 w6_run hive1 \<noteq> None"
  "submitted w6_end = [\<lparr>serial = 0, desc = plain 7\<rparr>, \<lparr>serial = 1, desc = plain 8\<rparr>, \<lparr>serial = 2, desc = plain 9\<rparr>]"
  "m_queue w6_end = []" "running w6_end = []"
  by (simp_all add: w6_end_def w6_run_def sched_eval hive_eval pool_eval)

text \<open>The theorem on three tasks submitted to a hive of one worker.\<close>

theorem ungated_tasks_fifo_witness:
  "submitted w6_end =
     [\<lparr>serial = 0, desc = plain 7\<rparr>, \<lparr>serial = 1, desc = plain 8\<rparr>, \<lparr>serial = 2, desc = plain 9\<rparr>] \<and>
   started w6_end = submitted w6_end \<and> completed w6_end = submitted w6_end"
proof -
  have r: "reachable E0 1 alloc_big w6_end"
    unfolding w6_end_def hive1_def using w6_eval(1) by (intro reachable_the_run) (simp add: hive1_def)
  have u: "list_all ungated (submitted w6_end)"
    by (simp add: w6_eval ungated_def plain_def)
  from ungated_tasks_fifo [OF r] u show ?thesis by (auto simp add: w6_eval)
qed

section \<open>Submission\<close>

lemma gate_open_sems: "sems h' = sems h \<Longrightarrow> gate_open h' = gate_open h"
  by (rule ext) (simp add: gate_open_def)

lemma submitOne_fields:
  "next_serial (submitOne h t) = Suc (next_serial h)"
  "submitted (submitOne h t) = submitted h @ [\<lparr>serial = next_serial h, desc = t\<rparr>]"
  "m_queue (submitOne h t) = m_queue h @ (if gate_open h t then [\<lparr>serial = next_serial h, desc = t\<rparr>] else [])"
  "blocked (submitOne h t) = blocked h @ (if gate_open h t then [] else [\<lparr>serial = next_serial h, desc = t\<rparr>])"
  by (simp_all add: submitOne_def Let_def)

lemma foldl_submitOne_fields:
  "sems (foldl submitOne h ts) = sems h \<and>
   submitted (foldl submitOne h ts) = submitted h @ copies (next_serial h) ts \<and>
   m_queue (foldl submitOne h ts) =
     m_queue h @ filter (\<lambda>c. gate_open h (desc c)) (copies (next_serial h) ts) \<and>
   blocked (foldl submitOne h ts) =
     blocked h @ filter (\<lambda>c. \<not> gate_open h (desc c)) (copies (next_serial h) ts)"
proof (induction ts arbitrary: h)
  case Nil
  show ?case by simp
next
  case (Cons t ts)
  have g: "gate_open (submitOne h t) = gate_open h"
    by (rule ext) (simp add: gate_open_def)
  note IH = Cons.IH [of "submitOne h t", unfolded g submitOne_fields submitOne_sems]
  have 1: "sems (foldl submitOne h (t # ts)) = sems h" using IH by simp
  have 2: "submitted (foldl submitOne h (t # ts)) = submitted h @ copies (next_serial h) (t # ts)"
    using IH by simp
  have 3: "m_queue (foldl submitOne h (t # ts)) =
     m_queue h @ filter (\<lambda>c. gate_open h (desc c)) (copies (next_serial h) (t # ts))"
    using IH by simp
  have 4: "blocked (foldl submitOne h (t # ts)) =
     blocked h @ filter (\<lambda>c. \<not> gate_open h (desc c)) (copies (next_serial h) (t # ts))"
    using IH by simp
  show ?case using 1 2 3 4 by blast
qed

lemma copies_serial: "c \<in> set (copies k ts) \<Longrightarrow> k \<le> serial c"
  by (induction ts arbitrary: k) (auto dest: Suc_leD)

lemma map_of_filter_other: "map_of (filter (\<lambda>r. fst r \<noteq> w) rs) w = None"
  by (auto simp add: map_of_eq_None_iff)

section \<open>Signal and wake\<close>

lemma wf1_parts:
  assumes "wf1 h"
  shows "distinct (map serial (completed h))" and "distinct (map serial (m_queue h @ blocked h))"
proof -
  define A where "A = map serial (m_queue h @ blocked h)"
  define C where "C = map serial (map snd (running h))"
  define D where "D = map serial (completed h)"
  have "distinct (A @ C @ D)"
    using assms by (simp add: wf1_def all_tasks_def A_def C_def D_def)
  then have "distinct A" "distinct D" by simp_all
  then show "distinct (map serial (completed h))" and "distinct (map serial (m_queue h @ blocked h))"
    by (simp_all only: A_def D_def)
qed

lemma blocked_not_woken:
  assumes wf: "wf1 h" and wo: "woken_once h"
  shows "list_all (\<lambda>b. b \<notin> set (woken h)) (blocked h)"
proof -
  have "b \<notin> set (woken h)" if "b \<in> set (blocked h)" for b
  proof
    assume "b \<in> set (woken h)"
    with wo have "b \<in> set (m_queue h @ map snd (running h) @ completed h)"
      unfolding woken_once_def by (elim conjE) (rule subsetD)
    with wf1_blocked_disjoint [OF wf that, of b] show False by simp
  qed
  then show ?thesis by (simp add: list_all_iff)
qed

text \<open>
  Claim C4: in every reachable state, when the callback of a worker's task has returned,
  the completion step decrements the task's signal-gate, if it has one, exactly once and
  changes no other semaphore; the task is then completed and no task completes twice.
  When the value after the decrement is 0, every task blocked on that semaphore moves
  to the tail of the ready queue and leaves the blocked tasks; none of them was woken
  before, and no task is ever woken twice. Otherwise the queue and the blocked tasks
  stay as they are. Steps are atomic, so that concurrent decrements are decrements in
  some order.
\<close>

theorem signal_decrement_and_wake_once:
  assumes r: "reachable E n alloc h" and run: "map_of (running h) w = Some t"
  shows "\<exists>h'. worker_complete w h = Some h' \<and>
     (m_signalSemaphore (desc t) = nullptr \<longrightarrow>
        sems h' = sems h \<and> m_queue h' = m_queue h \<and> blocked h' = blocked h \<and> woken h' = woken h) \<and>
     (m_signalSemaphore (desc t) \<noteq> nullptr \<longrightarrow>
        (\<exists>sem. sems h (m_signalSemaphore (desc t)) = Some sem \<and>
           sems h' = (sems h)(m_signalSemaphore (desc t) \<mapsto> sem\<lparr>m_atomic := m_atomic sem - 1\<rparr>) \<and>
           (m_atomic sem - 1 = 0 \<longrightarrow>
              m_queue h' = m_queue h @ filter (waits_on (m_signalSemaphore (desc t))) (blocked h) \<and>
              blocked h' = filter (\<lambda>b. \<not> waits_on (m_signalSemaphore (desc t)) b) (blocked h) \<and>
              woken h' = woken h @ filter (waits_on (m_signalSemaphore (desc t))) (blocked h) \<and>
              list_all (\<lambda>b. b \<notin> set (woken h)) (blocked h)) \<and>
           (m_atomic sem - 1 \<noteq> 0 \<longrightarrow>
              m_queue h' = m_queue h \<and> blocked h' = blocked h \<and> woken h' = woken h))) \<and>
     completed h' = completed h @ [t] \<and> map_of (running h') w = None \<and>
     distinct (map serial (completed h')) \<and> distinct (map serial (woken h')) \<and>
     distinct (map serial (m_queue h' @ blocked h'))"
proof -
  let ?g = "m_signalSemaphore (desc t)"
  have "(w, t) \<in> set (running h)" using run by (rule map_of_SomeD)
  then have "t \<in> set (map snd (running h))" by force
  with reachable_signals_valid [OF r] have v: "valid_gate h ?g"
    by (auto simp add: signals_valid_def list_all_iff)
  from reachable_woken_once [OF r] have wf: "wf1 h" and wo: "woken_once h" by simp_all
  have nw: "list_all (\<lambda>b. b \<notin> set (woken h)) (blocked h)"
    using wf wo by (rule blocked_not_woken)
  have inv: "distinct (map serial (completed h')) \<and> distinct (map serial (woken h')) \<and>
      distinct (map serial (m_queue h' @ blocked h'))" if wc: "worker_complete w h = Some h'" for h'
  proof -
    have "step E (Complete w) h = Some h'" using wc by (simp add: step_def)
    with r have r': "reachable E n alloc h'" by (rule reachable_step)
    from reachable_woken_once [OF r'] have "wf1 h'" and "woken_once h'" by simp_all
    then show ?thesis using wf1_parts [of h'] by (simp add: woken_once_def)
  qed
  show ?thesis
  proof (cases "?g = nullptr")
    case True
    have wc: "worker_complete w h = Some (finish w t h)"
      using run True by (simp add: worker_complete_def)
    show ?thesis
      using wc inv [OF wc] True
      by (intro exI [of _ "finish w t h"]) (simp add: finish_def map_of_filter_other)
  next
    case False
    with v obtain sem where sem: "sems h ?g = Some sem" by (auto simp add: valid_gate_def)
    let ?h1 = "h\<lparr>sems := (sems h)(?g \<mapsto> sem\<lparr>m_atomic := m_atomic sem - 1\<rparr>)\<rparr>"
    show ?thesis
    proof (cases "m_atomic sem - 1 = 0")
      case True
      have wc: "worker_complete w h = Some (finish w t (wake ?g ?h1))"
        using run False sem True by (simp add: worker_complete_def decreaseSemaphore_def Let_def)
      show ?thesis
        using wc inv [OF wc] False sem True nw
        by (intro exI [of _ "finish w t (wake ?g ?h1)"])
          (simp add: finish_def wake_def map_of_filter_other)
    next
      case nz: False
      have wc: "worker_complete w h = Some (finish w t ?h1)"
        using run False sem nz by (simp add: worker_complete_def decreaseSemaphore_def Let_def)
      show ?thesis
        using wc inv [OF wc] False sem nz
        by (intro exI [of _ "finish w t ?h1"]) (simp add: finish_def map_of_filter_other)
    qed
  qed
qed

lemma w4_eval:
  "run E0 w4_run hive2 \<noteq> None"
  "map_of (running w4) 0 = Some \<lparr>serial = 0, desc = signalling 7 68\<rparr>"
  "m_queue w4 = []" "blocked w4 = [\<lparr>serial = 1, desc = waiting 8 68\<rparr>]" "woken w4 = []"
  "sems w4 68 = Some \<lparr>m_atomic = 1\<rparr>" "completed w4 = []"
  by (simp_all add: w4_def w4_run_def sched_eval hive_eval pool_eval)

text \<open>The theorem on a signaller whose gate has the value 1 and one blocked task.\<close>

theorem signal_decrement_and_wake_once_witness:
  "map_of (running w4) 0 = Some \<lparr>serial = 0, desc = signalling 7 68\<rparr> \<and>
   blocked w4 = [\<lparr>serial = 1, desc = waiting 8 68\<rparr>] \<and>
   sems w4 68 = Some \<lparr>m_atomic = 1\<rparr> \<and>
   sems (the (worker_complete 0 w4)) 68 = Some \<lparr>m_atomic = 0\<rparr> \<and>
   m_queue (the (worker_complete 0 w4)) = [\<lparr>serial = 1, desc = waiting 8 68\<rparr>] \<and>
   blocked (the (worker_complete 0 w4)) = [] \<and>
   woken (the (worker_complete 0 w4)) = [\<lparr>serial = 1, desc = waiting 8 68\<rparr>] \<and>
   completed (the (worker_complete 0 w4)) = [\<lparr>serial = 0, desc = signalling 7 68\<rparr>]"
proof -
  have r: "reachable E0 2 alloc_big w4"
    unfolding w4_def hive2_def using w4_eval(1) by (intro reachable_the_run) (simp add: hive2_def)
  from signal_decrement_and_wake_once [OF r w4_eval(2)] obtain h' where
    wc: "worker_complete 0 w4 = Some h'"
    and sg: "m_signalSemaphore (desc \<lparr>serial = 0, desc = signalling 7 68\<rparr>) \<noteq> nullptr \<longrightarrow>
        (\<exists>sem. sems w4 (m_signalSemaphore (desc \<lparr>serial = 0, desc = signalling 7 68\<rparr>)) = Some sem \<and>
           sems h' = (sems w4)(m_signalSemaphore (desc \<lparr>serial = 0, desc = signalling 7 68\<rparr>) \<mapsto>
              sem\<lparr>m_atomic := m_atomic sem - 1\<rparr>) \<and>
           (m_atomic sem - 1 = 0 \<longrightarrow>
              m_queue h' = m_queue w4 @
                filter (waits_on (m_signalSemaphore (desc \<lparr>serial = 0, desc = signalling 7 68\<rparr>))) (blocked w4) \<and>
              blocked h' =
                filter (\<lambda>b. \<not> waits_on (m_signalSemaphore (desc \<lparr>serial = 0, desc = signalling 7 68\<rparr>)) b) (blocked w4) \<and>
              woken h' = woken w4 @
                filter (waits_on (m_signalSemaphore (desc \<lparr>serial = 0, desc = signalling 7 68\<rparr>))) (blocked w4) \<and>
              list_all (\<lambda>b. b \<notin> set (woken w4)) (blocked w4)) \<and>
           (m_atomic sem - 1 \<noteq> 0 \<longrightarrow>
              m_queue h' = m_queue w4 \<and> blocked h' = blocked w4 \<and> woken h' = woken w4))"
    and cp: "completed h' = completed w4 @ [\<lparr>serial = 0, desc = signalling 7 68\<rparr>]"
    by (elim exE conjE)
  from sg have
    "sems h' = (sems w4)(68 \<mapsto> \<lparr>m_atomic = 0\<rparr>) \<and>
     m_queue h' = [\<lparr>serial = 1, desc = waiting 8 68\<rparr>] \<and> blocked h' = [] \<and>
     woken h' = [\<lparr>serial = 1, desc = waiting 8 68\<rparr>]"
    by (auto simp add: w4_eval signalling_def waiting_def waits_on_def nullptr_def)
  then show ?thesis using wc cp by (simp add: w4_eval)
qed

section \<open>Placement of submitted tasks\<close>

lemma blocked_not_queued: "wf1 h \<Longrightarrow> t \<in> set (blocked h) \<Longrightarrow> t \<notin> set (m_queue h)"
  using wf1_blocked_disjoint [of h t t] by auto

lemma blocked_serial: "wf1 h \<Longrightarrow> t \<in> set (blocked h) \<Longrightarrow> serial t < next_serial h"
  by (simp add: wf1_def all_tasks_def list_all_iff)

lemma submitTasks_success:
  assumes "submitTasks E tasks cnt h = (Inr (), h')"
  shows "submitted h' = submitted h @ copies (next_serial h) (take cnt tasks) \<and>
         m_queue h' = m_queue h @ filter (\<lambda>c. gate_open h (desc c)) (copies (next_serial h) (take cnt tasks)) \<and>
         blocked h' = blocked h @ filter (\<lambda>c. \<not> gate_open h (desc c)) (copies (next_serial h) (take cnt tasks)) \<and>
         sems h' = sems h"
proof -
  from assms obtain a where h': "h' = foldl submitOne (h\<lparr>m_alloc := a\<rparr>) (take cnt tasks)"
    by (auto simp add: submitTasks_def split: if_splits prod.splits sum.splits)
  have g: "gate_open (h\<lparr>m_alloc := a\<rparr>) = gate_open h" by (rule gate_open_sems) simp
  show ?thesis
    using foldl_submitOne_fields [of "h\<lparr>m_alloc := a\<rparr>" "take cnt tasks"]
    unfolding h' g by simp
qed

lemma step_queue_cases:
  assumes "step E a h = Some h'" "t \<in> set (m_queue h')"
  shows "t \<in> set (m_queue h) \<or> next_serial h \<le> serial t \<or>
     (\<exists>w r sem. a = Complete w \<and> map_of (running h) w = Some r \<and>
        sems h (m_signalSemaphore (desc r)) = Some sem \<and> m_atomic sem - 1 = 0 \<and>
        waits_on (m_signalSemaphore (desc r)) t \<and>
        sems h' = (sems h)(m_signalSemaphore (desc r) \<mapsto> sem\<lparr>m_atomic := m_atomic sem - 1\<rparr>) \<and>
        blocked h' = filter (\<lambda>b. \<not> waits_on (m_signalSemaphore (desc r)) b) (blocked h))"
proof (cases a)
  case (NewSemaphore v)
  with assms show ?thesis
    by (auto simp add: step_def outcome_def newSemaphore_def
        split: if_splits prod.splits sum.splits error.splits)
next
  case (IncreaseSemaphore g)
  with assms show ?thesis
    by (auto simp add: step_def increaseSemaphore_at_def split: option.splits)
next
  case (SubmitTasks ts c)
  show ?thesis
  proof (cases "submitTasks E ts c h")
    case (Pair res h1)
    show ?thesis
    proof (cases res)
      case (Inl e)
      with assms SubmitTasks Pair show ?thesis
        by (auto simp add: step_def outcome_def submitTasks_def
            split: if_splits prod.splits sum.splits error.splits)
    next
      case (Inr u)
      with assms SubmitTasks Pair have "h' = h1" by (simp add: step_def outcome_def)
      with submitTasks_success [of E ts c h h'] Pair Inr assms(2) copies_serial [of t "next_serial h" "take c ts"]
      show ?thesis by auto
    qed
  qed
next
  case (Pop w)
  with assms worker_pop_start [of w h h'] show ?thesis
    by (cases "m_queue h") (auto simp add: step_def start_def)
next
  case (Complete w)
  with assms show ?thesis
    by (auto simp add: step_def worker_complete_def decreaseSemaphore_def Let_def finish_def wake_def
        split: option.splits if_splits)
qed


lemma w1_eval:
  "run E0 w1_run hive2 \<noteq> None" "sems w1 68 = Some \<lparr>m_atomic = 1\<rparr>" "m_queue w1 = []" "blocked w1 = []"
  "next_serial w1 = 0" "submitted w1 = []"
  by (simp_all add: w1_def w1_run_def sched_eval hive_eval pool_eval)

lemma w1_submit: "fst (submitTasks E0 w1_tasks 3 w1) = Inr ()"
  by (simp add: w1_def w1_run_def w1_tasks_def sched_eval hive_eval pool_eval)


section \<open>The invariant of the queue\<close>

lemma queue_inv_submitOne: "queue_inv h \<Longrightarrow> queue_inv (submitOne h t)"
proof -
  assume q: "queue_inv h"
  have g: "gate_open (submitOne h t) = gate_open h" by (rule gate_open_sems) simp
  show ?thesis using q by (simp add: queue_inv_def g submitOne_fields)
qed

lemma queue_inv_newSemaphore:
  assumes "queue_inv h" "\<not> list_ex (waits_on sem) (m_queue h @ blocked h)"
  shows "queue_inv (h\<lparr>m_alloc := a, sems := (sems h)(sem \<mapsto> \<lparr>m_atomic = v\<rparr>)\<rparr>)"
proof -
  have "gate_open (h\<lparr>m_alloc := a, sems := (sems h)(sem \<mapsto> \<lparr>m_atomic = v\<rparr>)\<rparr>) (desc t) =
        gate_open h (desc t)" if "t \<in> set (m_queue h @ blocked h)" for t
  proof -
    from that assms(2) have "m_waitSemaphore (desc t) \<noteq> sem"
      by (auto simp add: list_ex_iff waits_on_def)
    then show ?thesis by (simp add: gate_open_def)
  qed
  then show ?thesis using assms(1) by (simp add: queue_inv_def list_all_iff)
qed

lemma queue_inv_increase:
  assumes "queue_inv h" "sems h g = Some sem" "m_atomic sem \<noteq> 0" "m_atomic sem + 1 \<noteq> 0"
  shows "queue_inv (h\<lparr>sems := (sems h)(g \<mapsto> increaseSemaphore sem)\<rparr>)"
proof -
  have "gate_open (h\<lparr>sems := (sems h)(g \<mapsto> increaseSemaphore sem)\<rparr>) = gate_open h"
    using assms(2,3,4) by (intro ext) (simp add: gate_open_def increaseSemaphore_def)
  then show ?thesis using assms(1) by (simp add: queue_inv_def)
qed

lemma queue_inv_finish: "queue_inv h \<Longrightarrow> queue_inv (finish w t h)"
proof -
  have "gate_open (finish w t h) = gate_open h" by (rule gate_open_sems) (simp add: finish_def)
  then show "queue_inv h \<Longrightarrow> queue_inv (finish w t h)"
    by (simp add: queue_inv_def finish_def)
qed

lemma queue_inv_decrease_nonzero:
  assumes "queue_inv h" "sems h g = Some sem" "m_atomic sem \<noteq> 0" "m_atomic sem - 1 \<noteq> 0"
  shows "queue_inv (h\<lparr>sems := (sems h)(g \<mapsto> sem\<lparr>m_atomic := m_atomic sem - 1\<rparr>)\<rparr>)"
proof -
  have "gate_open (h\<lparr>sems := (sems h)(g \<mapsto> sem\<lparr>m_atomic := m_atomic sem - 1\<rparr>)\<rparr>) = gate_open h"
    using assms(2,3,4) by (intro ext) (simp add: gate_open_def)
  then show ?thesis using assms(1) by (simp add: queue_inv_def)
qed

lemma queue_inv_decrease_zero:
  assumes "queue_inv h" "sems h g = Some sem" "m_atomic sem - 1 = 0" "g \<noteq> nullptr"
  shows "queue_inv (wake g (h\<lparr>sems := (sems h)(g \<mapsto> sem\<lparr>m_atomic := m_atomic sem - 1\<rparr>)\<rparr>))"
proof -
  let ?h1 = "h\<lparr>sems := (sems h)(g \<mapsto> sem\<lparr>m_atomic := m_atomic sem - 1\<rparr>)\<rparr>"
  have o: "gate_open ?h1 t = (if m_waitSemaphore t = g then True else gate_open h t)" for t
    using assms(3) by (simp add: gate_open_def)
  have g: "gate_open (wake g ?h1) = gate_open ?h1" by (rule gate_open_sems) simp
  have mq: "m_queue (wake g ?h1) = m_queue h @ filter (waits_on g) (blocked h)"
    by (simp add: wake_def)
  have bl: "blocked (wake g ?h1) = filter (\<lambda>t. \<not> waits_on g t) (blocked h)"
    by (simp add: wake_def)
  have "list_all (\<lambda>t. gate_open ?h1 (desc t)) (m_queue h @ filter (waits_on g) (blocked h))"
    using assms(1) by (auto simp add: queue_inv_def o waits_on_def list_all_iff)
  moreover have "list_all (\<lambda>t. \<not> gate_open ?h1 (desc t)) (filter (\<lambda>t. \<not> waits_on g t) (blocked h))"
    using assms(1) by (auto simp add: queue_inv_def o waits_on_def list_all_iff)
  ultimately show ?thesis unfolding queue_inv_def g mq bl by simp
qed

lemma queue_inv_step:
  assumes q: "queue_inv h" and d: "disciplined E a h" and s: "step E a h = Some h'"
  shows "queue_inv h'"
proof (cases a)
  case (NewSemaphore v)
  show ?thesis
  proof (cases "StackAllocator_allocate E 1 (m_alloc h) 4")
    case (Pair res al)
    show ?thesis
    proof (cases res)
      case (Inl e)
      with s NewSemaphore Pair have "h' = h\<lparr>m_alloc := al\<rparr>"
        by (auto simp add: step_def outcome_def newSemaphore_def split: if_splits error.splits)
      moreover have "gate_open (h\<lparr>m_alloc := al\<rparr>) = gate_open h" by (rule gate_open_sems) simp
      ultimately show ?thesis using q by (simp add: queue_inv_def)
    next
      case (Inr sem)
      with s NewSemaphore Pair have v: "v \<noteq> 0"
        and h': "h' = h\<lparr>m_alloc := al, sems := (sems h)(sem \<mapsto> \<lparr>m_atomic = v\<rparr>)\<rparr>"
        by (auto simp add: step_def outcome_def newSemaphore_def split: if_splits)
      from d NewSemaphore Pair Inr v have "\<not> list_ex (waits_on sem) (m_queue h @ blocked h)"
        by (simp add: disciplined_def newSemaphore_def word_greater_zero_iff)
      then show ?thesis unfolding h' using q by (intro queue_inv_newSemaphore)
    qed
  qed
next
  case (IncreaseSemaphore g)
  with s obtain sem where sem: "sems h g = Some sem"
    and h': "h' = h\<lparr>sems := (sems h)(g \<mapsto> increaseSemaphore sem)\<rparr>"
    by (auto simp add: step_def increaseSemaphore_at_def split: option.splits)
  from d IncreaseSemaphore sem have "m_atomic sem \<noteq> 0" "m_atomic sem + 1 \<noteq> 0"
    by (simp_all add: disciplined_def)
  then show ?thesis unfolding h' using q sem by (intro queue_inv_increase)
next
  case (SubmitTasks ts c)
  show ?thesis
  proof (cases "StackAllocator_allocate E (sizeof_Task E) (m_alloc h) c")
    case (Pair res al)
    have g: "gate_open (h\<lparr>m_alloc := al\<rparr>) = gate_open h" by (rule gate_open_sems) simp
    have q1: "queue_inv (h\<lparr>m_alloc := al\<rparr>)" using q g by (simp add: queue_inv_def)
    show ?thesis
    proof (cases res)
      case (Inl e)
      with s SubmitTasks Pair have "h' = h\<lparr>m_alloc := al\<rparr>"
        by (auto simp add: step_def outcome_def submitTasks_def split: if_splits error.splits)
      then show ?thesis using q1 by simp
    next
      case (Inr p)
      with s SubmitTasks Pair have h': "h' = foldl submitOne (h\<lparr>m_alloc := al\<rparr>) (take c ts)"
        and v: "list_all (valid_task (h\<lparr>m_alloc := al\<rparr>)) (take c ts)"
        by (auto simp add: step_def outcome_def submitTasks_def list_ex_iff list_all_iff
            valid_task_def valid_gate_def split: if_splits)
      show ?thesis unfolding h'
        using q1 v by (rule foldl_submitOne_induct) (rule queue_inv_submitOne)
    qed
  qed
next
  case (Pop w)
  with s worker_pop_start [of w h h'] have h': "h' = start w h" and ne: "m_queue h \<noteq> []"
    by (simp_all add: step_def)
  have "gate_open (start w h) = gate_open h" by (rule gate_open_sems) (simp add: start_def)
  with q ne show ?thesis unfolding h'
    by (cases "m_queue h") (simp_all add: queue_inv_def start_def)
next
  case (Complete w)
  with s obtain t where t: "map_of (running h) w = Some t"
    by (auto simp add: step_def worker_complete_def split: option.splits)
  let ?g = "m_signalSemaphore (desc t)"
  show ?thesis
  proof (cases "?g = nullptr")
    case True
    with s Complete t have "h' = finish w t h" by (simp add: step_def worker_complete_def)
    with q show ?thesis by (simp add: queue_inv_finish)
  next
    case False
    with s Complete t obtain sem where sem: "sems h ?g = Some sem"
      by (auto simp add: step_def worker_complete_def decreaseSemaphore_def split: option.splits)
    from d Complete t sem False have nz: "m_atomic sem \<noteq> 0" by (simp add: disciplined_def)
    let ?h1 = "h\<lparr>sems := (sems h)(?g \<mapsto> sem\<lparr>m_atomic := m_atomic sem - 1\<rparr>)\<rparr>"
    show ?thesis
    proof (cases "m_atomic sem - 1 = 0")
      case True
      with s Complete t sem False have "h' = finish w t (wake ?g ?h1)"
        by (simp add: step_def worker_complete_def decreaseSemaphore_def Let_def)
      with queue_inv_decrease_zero [OF q sem True False] show ?thesis by (simp add: queue_inv_finish)
    next
      case nz1: False
      with s Complete t sem False have "h' = finish w t ?h1"
        by (simp add: step_def worker_complete_def decreaseSemaphore_def Let_def)
      with queue_inv_decrease_nonzero [OF q sem nz nz1] show ?thesis by (simp add: queue_inv_finish)
    qed
  qed
qed

lemma reachable_ok_queue_inv: "reachable_ok E n alloc h \<Longrightarrow> queue_inv h"
proof (induction rule: reachable_ok.induct)
  case reachable_ok_init
  show ?case by (simp add: queue_inv_def ThreadHive_init_def)
next
  case (reachable_ok_step h a h')
  then show ?case by (simp add: queue_inv_step)
qed

lemma reachable_ok_reachable: "reachable_ok E n alloc h \<Longrightarrow> reachable E n alloc h"
  by (induction rule: reachable_ok.induct) (auto intro: reachable_init reachable_step)

text \<open>In every reachable state the started tasks are the running and the completed ones.\<close>

lemma reachable_started_inv: "reachable E n alloc h \<Longrightarrow> wf1 h \<and> started_inv h"
proof (induction rule: reachable_prim_induct)
  case init
  show ?case by (simp add: wf1_init, simp add: started_inv_def ThreadHive_init_def)
next
  case (alloc h a)
  then show ?case by (simp add: wf1_alloc started_inv_def)
next
  case (sems h sm)
  then show ?case by (simp add: wf1_sems started_inv_def)
next
  case (submit h t)
  then show ?case by (simp add: wf1_submitOne started_inv_def) (simp add: submitOne_def Let_def)
next
  case (start h w)
  then show ?case by (simp add: wf1_start started_inv_def) (simp add: start_def)
next
  case (wake h g)
  then show ?case by (simp add: wf1_wake started_inv_def)
next
  case (finish h w t)
  have wf: "wf1 h" and st: "started_inv h" using finish.IH by simp_all
  from wf have d: "distinct (map fst (running h))" by (simp add: wf1_def)
  from running_split [OF d finish.hyps] obtain xs ys where
    rs: "running h = xs @ (w, t) # ys" "filter (\<lambda>r. fst r \<noteq> w) (running h) = xs @ ys"
    by (elim exE conjE)
  have "started_inv (finish w t h)"
    using st rs by (simp add: started_inv_def finish_def)
  with wf finish.hyps show ?case by (simp add: wf1_finish)
qed

text \<open>
  The ready and the blocked tasks are the tasks that are submitted and not started, and
  no blocked task is ready.
\<close>

lemma unstarted_set:
  assumes wf: "wf1 h" and c: "counted h" and st: "started_inv h"
  shows "set (unstarted h) = set (m_queue h) \<union> set (blocked h)"
    and "set (m_queue h) \<inter> set (blocked h) = {}"
proof -
  define A where "A = m_queue h @ blocked h"
  define B where "B = map snd (running h) @ completed h"
  have at: "all_tasks h = A @ B" by (simp add: all_tasks_def A_def B_def)
  from wf have "distinct (map serial (all_tasks h))" by (simp add: wf1_def)
  then have d: "distinct (map serial A)" "serial ` set A \<inter> serial ` set B = {}"
    unfolding at by simp_all
  from d(2) have dis: "set A \<inter> set B = {}" by blast
  from c have "mset (submitted h) = mset (all_tasks h)" by (simp add: counted_def)
  then have "set (submitted h) = set (all_tasks h)" by (rule mset_eq_setD)
  then have sub: "set (submitted h) = set A \<union> set B" unfolding at by simp
  from st have "mset (started h) = mset B" by (simp add: started_inv_def B_def)
  then have sta: "set (started h) = set B" by (rule mset_eq_setD)
  have "set (unstarted h) = (set A \<union> set B) - set B"
    unfolding unstarted_def set_filter sub sta by blast
  with dis have "set (unstarted h) = set A" by blast
  then show "set (unstarted h) = set (m_queue h) \<union> set (blocked h)" by (simp add: A_def)
  from d(1) have "distinct (map serial (m_queue h) @ map serial (blocked h))" by (simp add: A_def)
  then have "serial ` set (m_queue h) \<inter> serial ` set (blocked h) = {}" by simp
  then show "set (m_queue h) \<inter> set (blocked h) = {}" by blast
qed

lemma ready_iff_of_queue_inv:
  assumes "wf1 h" "counted h" "started_inv h" "queue_inv h"
  shows "ready_iff h"
proof -
  note u = unstarted_set [OF assms(1,2,3)]
  have "(t \<in> set (m_queue h)) = gate_open h (desc t)" if "t \<in> set (unstarted h)" for t
  proof (cases "t \<in> set (m_queue h)")
    case True
    with assms(4) show ?thesis by (simp add: queue_inv_def list_all_iff)
  next
    case False
    with that u(1) have "t \<in> set (blocked h)" by simp
    with assms(4) False show ?thesis by (simp add: queue_inv_def list_all_iff)
  qed
  then show ?thesis using u(1) by (simp add: ready_iff_def list_all_iff)
qed

lemma reachable_ok_ready_iff:
  assumes "reachable_ok E n alloc h"
  shows "ready_iff h"
proof -
  from assms have r: "reachable E n alloc h" by (rule reachable_ok_reachable)
  from reachable_counted [OF r] have "wf1 h" "counted h" by simp_all
  moreover from reachable_started_inv [OF r] have "started_inv h" by simp
  moreover from assms have "queue_inv h" by (rule reachable_ok_queue_inv)
  ultimately show ?thesis by (rule ready_iff_of_queue_inv)
qed

text \<open>
  Claim C2, amended: in every state reached by steps that keep the discipline (no gate is
  signalled at 0, \<open>increaseSemaphore\<close> is applied to a counter that is neither 0 nor
  \<open>2^32 - 1\<close>, a new semaphore takes an address that is not the wait-gate of a task that
  is ready or blocked), a task that is submitted and not started is in the ready queue
  if and only if it has no wait-gate or its wait-gate's counter is 0, and the tasks of
  the ready queue are submitted and not started; the submitted tasks that are not
  started and not ready are the blocked ones, whose wait-gate is not at 0; and every
  such step (creation of a semaphore, increase, submission, pop, completion with its
  wake) leads to a state where all this holds again.
\<close>

theorem ready_queue_invariant_under_discipline:
  assumes "reachable_ok E n alloc h"
  shows "ready_iff h \<and> queue_inv h \<and>
         set (unstarted h) = set (m_queue h) \<union> set (blocked h) \<and>
         (\<forall>a h'. disciplined E a h \<and> step E a h = Some h' \<longrightarrow>
            ready_iff h' \<and> queue_inv h' \<and>
            set (unstarted h') = set (m_queue h') \<union> set (blocked h'))"
proof -
  have *: "ready_iff k \<and> queue_inv k \<and> set (unstarted k) = set (m_queue k) \<union> set (blocked k)"
    if k: "reachable_ok E n alloc k" for k
  proof -
    from k have r: "reachable E n alloc k" by (rule reachable_ok_reachable)
    from reachable_counted [OF r] have wf: "wf1 k" and c: "counted k" by simp_all
    from reachable_started_inv [OF r] have st: "started_inv k" by simp
    from k have "ready_iff k" by (rule reachable_ok_ready_iff)
    moreover from k have "queue_inv k" by (rule reachable_ok_queue_inv)
    ultimately show ?thesis using unstarted_set(1) [OF wf c st] by simp
  qed
  have "ready_iff h' \<and> queue_inv h' \<and> set (unstarted h') = set (m_queue h') \<union> set (blocked h')"
    if "disciplined E a h" "step E a h = Some h'" for a h'
  proof -
    from assms that have "reachable_ok E n alloc h'" by (rule reachable_ok_step)
    then show ?thesis by (rule *)
  qed
  with * [OF assms] show ?thesis by blast
qed

lemma reachable_ok_run:
  "reachable_ok E n alloc h \<Longrightarrow> run_ok E acts h = Some h' \<Longrightarrow> reachable_ok E n alloc h'"
proof (induction acts arbitrary: h)
  case Nil
  then show ?case by simp
next
  case (Cons a acts)
  then show ?case by (auto split: option.splits if_splits intro: reachable_ok_step)
qed

lemma reachable_ok_the_run:
  "run_ok E acts (ThreadHive_init n alloc) \<noteq> None \<Longrightarrow>
   reachable_ok E n alloc (the (run_ok E acts (ThreadHive_init n alloc)))"
  using reachable_ok_run [OF reachable_ok_init] by fastforce

lemma cx2_eval:
  "run E0 cx2_run hive1 \<noteq> None" "m_queue cx2 = [\<lparr>serial = 1, desc = waiting 8 68\<rparr>]"
  "blocked cx2 = [\<lparr>serial = 2, desc = waiting 9 68\<rparr>]"
  "sems cx2 68 = Some \<lparr>m_atomic = 1\<rparr>" "sems cx2_past 68 = Some \<lparr>m_atomic = 0\<rparr>"
  by (simp_all add: cx2_def cx2_past_def cx2_run_def sched_eval hive_eval pool_eval)

lemma cx2b_eval:
  "run E0 cx2b_run hive1 \<noteq> None" "m_queue cx2b = [\<lparr>serial = 2, desc = waiting 8 68\<rparr>]"
  "sems cx2b 68 = Some \<lparr>m_atomic = - 1\<rparr>"
  by (simp_all add: cx2b_def cx2b_run_def sched_eval hive_eval pool_eval)

lemma cx2c_eval:
  "run E0 cx2c_run hive1 \<noteq> None" "m_queue cx2c = []"
  "blocked cx2c = [\<lparr>serial = 0, desc = waiting 8 68\<rparr>]"
  "sems cx2c 68 = Some \<lparr>m_atomic = 0\<rparr>"
  "submitted cx2c = [\<lparr>serial = 0, desc = waiting 8 68\<rparr>]" "started cx2c = []"
  by (simp_all add: cx2c_def cx2c_run_def sched_eval hive_eval pool_eval)

lemma cx2_history:
  "submitted cx2 = [\<lparr>serial = 0, desc = signalling 7 68\<rparr>, \<lparr>serial = 1, desc = waiting 8 68\<rparr>,
     \<lparr>serial = 2, desc = waiting 9 68\<rparr>]"
  "started cx2 = [\<lparr>serial = 0, desc = signalling 7 68\<rparr>]"
  "submitted cx2b = [\<lparr>serial = 0, desc = signalling 7 68\<rparr>, \<lparr>serial = 1, desc = signalling 9 68\<rparr>,
     \<lparr>serial = 2, desc = waiting 8 68\<rparr>]"
  "started cx2b = [\<lparr>serial = 0, desc = signalling 7 68\<rparr>, \<lparr>serial = 1, desc = signalling 9 68\<rparr>]"
  by (simp_all add: cx2_def cx2b_def cx2_run_def cx2b_run_def sched_eval hive_eval pool_eval)

text \<open>
  Claim C2, as stated, fails in three reachable states. In the first, two tasks wait on
  the same semaphore, whose counter has been at 0 and is at 1 after \<open>increaseSemaphore\<close>:
  the task submitted before the increase is in the ready queue, the task submitted after
  it is not. In the second only submissions and completions take place: a second
  signaller decrements the counter at 0, which wraps to \<open>2^32 - 1\<close>, while the task that
  waits on it is ready. In the third \<open>increaseSemaphore\<close> wraps a counter of \<open>2^32 - 1\<close>
  to 0, and the task that waits on it stays blocked: it is not in the ready queue
  although its wait-gate's counter is 0.
\<close>

theorem ready_task_with_nonzero_gate:
  "reachable E0 1 alloc_big cx2 \<and> sems cx2_past 68 = Some \<lparr>m_atomic = 0\<rparr> \<and>
   m_queue cx2 = [\<lparr>serial = 1, desc = waiting 8 68\<rparr>] \<and>
   blocked cx2 = [\<lparr>serial = 2, desc = waiting 9 68\<rparr>] \<and>
   sems cx2 68 = Some \<lparr>m_atomic = 1\<rparr> \<and> \<not> queue_inv cx2 \<and> \<not> ready_iff cx2 \<and>
   reachable E0 1 alloc_big cx2b \<and> m_queue cx2b = [\<lparr>serial = 2, desc = waiting 8 68\<rparr>] \<and>
   sems cx2b 68 = Some \<lparr>m_atomic = 0xFFFFFFFF\<rparr> \<and> \<not> queue_inv cx2b \<and> \<not> ready_iff cx2b \<and>
   reachable E0 1 alloc_big cx2c \<and> m_queue cx2c = [] \<and>
   blocked cx2c = [\<lparr>serial = 0, desc = waiting 8 68\<rparr>] \<and> submitted cx2c = blocked cx2c \<and>
   started cx2c = [] \<and> sems cx2c 68 = Some \<lparr>m_atomic = 0\<rparr> \<and>
   \<not> queue_inv cx2c \<and> \<not> ready_iff cx2c"
proof -
  have "reachable E0 1 alloc_big cx2"
    unfolding cx2_def hive1_def using cx2_eval(1) by (intro reachable_the_run) (simp add: hive1_def)
  moreover have "reachable E0 1 alloc_big cx2b"
    unfolding cx2b_def hive1_def using cx2b_eval(1) by (intro reachable_the_run) (simp add: hive1_def)
  moreover have "reachable E0 1 alloc_big cx2c"
    unfolding cx2c_def hive1_def using cx2c_eval(1) by (intro reachable_the_run) (simp add: hive1_def)
  moreover have "\<not> queue_inv cx2"
    by (simp add: queue_inv_def gate_open_def cx2_eval waiting_def nullptr_def)
  moreover have "\<not> queue_inv cx2b"
    by (simp add: queue_inv_def gate_open_def cx2b_eval waiting_def nullptr_def)
  moreover have "\<not> queue_inv cx2c"
    by (simp add: queue_inv_def gate_open_def cx2c_eval waiting_def nullptr_def)
  moreover have "\<not> ready_iff cx2"
    by (simp add: ready_iff_def unstarted_def gate_open_def cx2_eval cx2_history waiting_def
        signalling_def nullptr_def)
  moreover have "\<not> ready_iff cx2b"
    by (simp add: ready_iff_def unstarted_def gate_open_def cx2b_eval cx2_history waiting_def
        signalling_def nullptr_def)
  moreover have "\<not> ready_iff cx2c"
    by (simp add: ready_iff_def unstarted_def gate_open_def cx2c_eval waiting_def nullptr_def)
  ultimately show ?thesis by (simp add: cx2_eval cx2b_eval cx2c_eval)
qed

lemma w2_eval:
  "run_ok E0 w2_run hive2 \<noteq> None"
  "run_ok E0 (w2_run @ [Pop 0, Pop 1, Complete 1, Complete 0]) hive2 \<noteq> None"
  "sems w2_mid 68 = Some \<lparr>m_atomic = 2\<rparr>"
  "m_queue w2_mid = [\<lparr>serial = 2, desc = signalling 9 68\<rparr>, \<lparr>serial = 3, desc = signalling 10 68\<rparr>]"
  "blocked w2_mid = [\<lparr>serial = 1, desc = waiting 8 68\<rparr>]"
  "sems w2_end 68 = Some \<lparr>m_atomic = 0\<rparr>"
  "m_queue w2_end = [\<lparr>serial = 1, desc = waiting 8 68\<rparr>]"
  "blocked w2_end = []"
  by (simp_all add: w2_mid_def w2_end_def w2_run_def disciplined_def sched_eval hive_eval pool_eval)

text \<open>
  The theorem on the dynamic widening: the waiting task is blocked while the counter is
  2, and ready when the two later signallers have taken it to 0.
\<close>

theorem ready_queue_invariant_under_discipline_witness:
  "blocked w2_mid = [\<lparr>serial = 1, desc = waiting 8 68\<rparr>] \<and> sems w2_mid 68 = Some \<lparr>m_atomic = 2\<rparr> \<and>
   queue_inv w2_mid \<and> ready_iff w2_mid \<and>
   set (unstarted w2_mid) = set (m_queue w2_mid) \<union> set (blocked w2_mid) \<and>
   m_queue w2_end = [\<lparr>serial = 1, desc = waiting 8 68\<rparr>] \<and> sems w2_end 68 = Some \<lparr>m_atomic = 0\<rparr> \<and>
   queue_inv w2_end \<and> ready_iff w2_end \<and>
   set (unstarted w2_end) = set (m_queue w2_end) \<union> set (blocked w2_end)"
proof -
  have rm: "reachable_ok E0 2 alloc_big w2_mid"
    unfolding w2_mid_def hive2_def using w2_eval(1)
    by (intro reachable_ok_the_run) (simp add: hive2_def)
  have re: "reachable_ok E0 2 alloc_big w2_end"
    unfolding w2_end_def hive2_def using w2_eval(2)
    by (intro reachable_ok_the_run) (simp add: hive2_def)
  from ready_queue_invariant_under_discipline [OF rm]
  have "queue_inv w2_mid" "ready_iff w2_mid"
    "set (unstarted w2_mid) = set (m_queue w2_mid) \<union> set (blocked w2_mid)" by simp_all
  moreover from ready_queue_invariant_under_discipline [OF re]
  have "queue_inv w2_end" "ready_iff w2_end"
    "set (unstarted w2_end) = set (m_queue w2_end) \<union> set (blocked w2_end)" by simp_all
  ultimately show ?thesis by (simp only: w2_eval simp_thms)
qed

end
